theory Spec2Isabelle
  imports Main "HOL-Library.Sublist" "HOL-Library.List_Lexorder" "HOL-Library.AList"
begin

section \<open>Python values\<close>

text \<open>
  A Python \<open>str\<close> is a sequence of Unicode code points, a \<open>bytes\<close> object a sequence of
  octets; both are lists of naturals here. \<open>ascii\<close> reads a literal of the source.
\<close>

type_synonym pystr = "nat list"
type_synonym pybytes = "nat list"

definition ascii :: "string \<Rightarrow> pystr" where
  "ascii s = map of_char s"

datatype error = IndexError | ValueError | UnicodeEncodeError | IOError

text \<open>Indexing and slicing with Python's integers: a negative index counts from the end.\<close>

definition py_index :: "'a list \<Rightarrow> int \<Rightarrow> int" where
  "py_index xs i = (if i < 0 then int (length xs) + i else i)"

definition py_get :: "'a list \<Rightarrow> int \<Rightarrow> error + 'a" where
  "py_get xs i =
     (let j = py_index xs i
      in if 0 \<le> j \<and> j < int (length xs) then Inr (xs ! nat j) else Inl IndexError)"

definition py_set :: "'a list \<Rightarrow> int \<Rightarrow> 'a \<Rightarrow> error + 'a list" where
  "py_set xs i v =
     (let j = py_index xs i
      in if 0 \<le> j \<and> j < int (length xs) then Inr (xs[nat j := v]) else Inl IndexError)"

definition py_del :: "'a list \<Rightarrow> int \<Rightarrow> error + 'a list" where
  "py_del xs i =
     (let j = py_index xs i
      in if 0 \<le> j \<and> j < int (length xs)
         then Inr (take (nat j) xs @ drop (Suc (nat j)) xs) else Inl IndexError)"

definition slice_to :: "'a list \<Rightarrow> int \<Rightarrow> 'a list" where
  "slice_to xs i = take (nat (py_index xs i)) xs"

definition slice_from :: "'a list \<Rightarrow> int \<Rightarrow> 'a list" where
  "slice_from xs i = drop (nat (py_index xs i)) xs"

definition py_insert :: "'a list \<Rightarrow> int \<Rightarrow> 'a \<Rightarrow> 'a list" where
  "py_insert xs i v = slice_to xs i @ v # slice_from xs i"

definition py_len :: "'a list \<Rightarrow> int" where
  "py_len xs = int (length xs)"

section \<open>The text buffer of \<open>get_multiline_input\<close> and \<open>get_multiline_input_with_content\<close>\<close>

text \<open>
  Both editors run the same loop body over \<open>lines\<close>, \<open>current_line_idx\<close>, \<open>cursor_x\<close> and
  \<open>top_line_idx\<close>. The key codes are those of curses.
\<close>

record editor =
  lines :: "pystr list"
  current_line_idx :: int
  cursor_x :: int
  top_line_idx :: int

definition KEY_DOWN :: int where "KEY_DOWN = 258"
definition KEY_UP :: int where "KEY_UP = 259"
definition KEY_LEFT :: int where "KEY_LEFT = 260"
definition KEY_RIGHT :: int where "KEY_RIGHT = 261"
definition KEY_BACKSPACE :: int where "KEY_BACKSPACE = 263"
definition KEY_DC :: int where "KEY_DC = 330"
definition KEY_ENTER :: int where "KEY_ENTER = 343"

definition newline :: "pystr \<Rightarrow> editor \<Rightarrow> error + editor" where
  "newline current_line st =
     (let before_cursor = slice_to current_line (cursor_x st);
          after_cursor = slice_from current_line (cursor_x st)
      in case py_set (lines st) (current_line_idx st) before_cursor of
           Inl e \<Rightarrow> Inl e
         | Inr ls \<Rightarrow>
             Inr (st\<lparr>lines := py_insert ls (current_line_idx st + 1) after_cursor,
                     current_line_idx := current_line_idx st + 1,
                     cursor_x := 0\<rparr>))"

definition backspace :: "pystr \<Rightarrow> editor \<Rightarrow> error + editor" where
  "backspace current_line st =
     (if cursor_x st > 0 then
        (case py_set (lines st) (current_line_idx st)
                (slice_to current_line (cursor_x st - 1) @ slice_from current_line (cursor_x st)) of
           Inl e \<Rightarrow> Inl e
         | Inr ls \<Rightarrow> Inr (st\<lparr>lines := ls, cursor_x := cursor_x st - 1\<rparr>))
      else if current_line_idx st > 0 then
        (case py_get (lines st) (current_line_idx st - 1) of
           Inl e \<Rightarrow> Inl e
         | Inr prev_line \<Rightarrow>
             (case py_set (lines st) (current_line_idx st - 1) (prev_line @ current_line) of
                Inl e \<Rightarrow> Inl e
              | Inr ls \<Rightarrow>
                  (case py_del ls (current_line_idx st) of
                     Inl e \<Rightarrow> Inl e
                   | Inr ls' \<Rightarrow>
                       Inr (st\<lparr>lines := ls',
                               current_line_idx := current_line_idx st - 1,
                               cursor_x := py_len prev_line\<rparr>))))
      else Inr st)"

definition delete_forward :: "pystr \<Rightarrow> editor \<Rightarrow> error + editor" where
  "delete_forward current_line st =
     (if cursor_x st < py_len current_line then
        (case py_set (lines st) (current_line_idx st)
                (slice_to current_line (cursor_x st) @ slice_from current_line (cursor_x st + 1)) of
           Inl e \<Rightarrow> Inl e
         | Inr ls \<Rightarrow> Inr (st\<lparr>lines := ls\<rparr>))
      else Inr st)"

definition move_up :: "editor \<Rightarrow> error + editor" where
  "move_up st =
     (if current_line_idx st > 0 then
        (case py_get (lines st) (current_line_idx st - 1) of
           Inl e \<Rightarrow> Inl e
         | Inr l \<Rightarrow>
             Inr (st\<lparr>current_line_idx := current_line_idx st - 1,
                     cursor_x := min (cursor_x st) (py_len l)\<rparr>))
      else Inr st)"

definition move_down :: "editor \<Rightarrow> error + editor" where
  "move_down st =
     (if current_line_idx st < py_len (lines st) - 1 then
        (case py_get (lines st) (current_line_idx st + 1) of
           Inl e \<Rightarrow> Inl e
         | Inr l \<Rightarrow>
             Inr (st\<lparr>current_line_idx := current_line_idx st + 1,
                     cursor_x := min (cursor_x st) (py_len l)\<rparr>))
      else Inr st)"

definition move_left :: "editor \<Rightarrow> error + editor" where
  "move_left st =
     (if cursor_x st > 0 then Inr (st\<lparr>cursor_x := cursor_x st - 1\<rparr>)
      else if current_line_idx st > 0 then
        (case py_get (lines st) (current_line_idx st - 1) of
           Inl e \<Rightarrow> Inl e
         | Inr l \<Rightarrow>
             Inr (st\<lparr>current_line_idx := current_line_idx st - 1, cursor_x := py_len l\<rparr>))
      else Inr st)"

definition move_right :: "pystr \<Rightarrow> editor \<Rightarrow> error + editor" where
  "move_right current_line st =
     (if cursor_x st < py_len current_line then Inr (st\<lparr>cursor_x := cursor_x st + 1\<rparr>)
      else if current_line_idx st < py_len (lines st) - 1 then
        Inr (st\<lparr>current_line_idx := current_line_idx st + 1, cursor_x := 0\<rparr>)
      else Inr st)"

definition insert_char :: "int \<Rightarrow> pystr \<Rightarrow> editor \<Rightarrow> error + editor" where
  "insert_char key current_line st =
     (case py_set (lines st) (current_line_idx st)
             (slice_to current_line (cursor_x st) @ [nat key] @ slice_from current_line (cursor_x st)) of
        Inl e \<Rightarrow> Inl e
      | Inr ls \<Rightarrow> Inr (st\<lparr>lines := ls, cursor_x := cursor_x st + 1\<rparr>))"

definition adjust_scroll :: "int \<Rightarrow> editor \<Rightarrow> editor" where
  "adjust_scroll edit_win_h st =
     (if current_line_idx st < top_line_idx st then st\<lparr>top_line_idx := current_line_idx st\<rparr>
      else if current_line_idx st \<ge> top_line_idx st + edit_win_h
      then st\<lparr>top_line_idx := current_line_idx st - edit_win_h + 1\<rparr>
      else st)"

text \<open>
  One pass through "Process Input" and "Adjust Scroll" for the key read by \<open>getch\<close>.
  \<open>None\<close> is the \<open>break\<close> of Ctrl+D and Ctrl+G; an error is the exception the pass raises.
\<close>

definition scroll_and_continue :: "int \<Rightarrow> error + editor \<Rightarrow> error + editor option" where
  "scroll_and_continue edit_win_h r =
     (case r of Inl e \<Rightarrow> Inl e | Inr st \<Rightarrow> Inr (Some (adjust_scroll edit_win_h st)))"

definition process_input :: "int \<Rightarrow> int \<Rightarrow> editor \<Rightarrow> error + editor option" where
  "process_input edit_win_h key st =
     (case py_get (lines st) (current_line_idx st) of
        Inl e \<Rightarrow> Inl e
      | Inr current_line \<Rightarrow>
          if key \<in> {KEY_ENTER, 10, 13} then
            scroll_and_continue edit_win_h (newline current_line st)
          else if key \<in> {KEY_BACKSPACE, 127, 8} then
            scroll_and_continue edit_win_h (backspace current_line st)
          else if key = KEY_DC then
            scroll_and_continue edit_win_h (delete_forward current_line st)
          else if key = KEY_UP then scroll_and_continue edit_win_h (move_up st)
          else if key = KEY_DOWN then scroll_and_continue edit_win_h (move_down st)
          else if key = KEY_LEFT then scroll_and_continue edit_win_h (move_left st)
          else if key = KEY_RIGHT then
            scroll_and_continue edit_win_h (move_right current_line st)
          else if key \<in> {4, 7} then Inr None
          else if 32 \<le> key \<and> key \<le> 126 then
            scroll_and_continue edit_win_h (insert_char key current_line st)
          else if key = 27 then scroll_and_continue edit_win_h (Inr st)
          else scroll_and_continue edit_win_h (Inr st))"

definition buffer_inv :: "editor \<Rightarrow> bool" where
  "buffer_inv st \<longleftrightarrow>
     lines st \<noteq> [] \<and>
     0 \<le> current_line_idx st \<and> current_line_idx st < py_len (lines st) \<and>
     0 \<le> cursor_x st \<and> cursor_x st \<le> py_len (lines st ! nat (current_line_idx st))"

definition example_buffer :: editor where
  "example_buffer =
     \<lparr>lines = [ascii ''hi'', ascii ''there''], current_line_idx = 0, cursor_x = 2,
      top_line_idx = 0\<rparr>"

definition origin_buffer :: editor where
  "origin_buffer =
     \<lparr>lines = [ascii ''hi'', ascii ''there''], current_line_idx = 0, cursor_x = 0,
      top_line_idx = 0\<rparr>"

section \<open>Strings: \<open>strip\<close>, \<open>startswith\<close>, \<open>split\<close>\<close>

text \<open>
  \<open>str.strip()\<close> removes the characters for which \<open>str.isspace()\<close> holds;
  \<open>str.splitlines()\<close> breaks at the line boundaries of Unicode.
  \<open>str_partition sep s\<close> finds the leftmost occurrence of \<open>sep\<close>, and
  \<open>str_split1 s sep\<close> is \<open>s.split(sep, 1)\<close>, which raises ValueError on an empty separator.
\<close>

definition is_whitespace :: "nat \<Rightarrow> bool" where
  "is_whitespace c \<longleftrightarrow>
     (9 \<le> c \<and> c \<le> 13) \<or> (28 \<le> c \<and> c \<le> 32) \<or> c = 133 \<or> c = 160 \<or> c = 5760 \<or>
     (8192 \<le> c \<and> c \<le> 8202) \<or> c = 8232 \<or> c = 8233 \<or> c = 8239 \<or> c = 8287 \<or> c = 12288"

definition is_linebreak :: "nat \<Rightarrow> bool" where
  "is_linebreak c \<longleftrightarrow>
     (10 \<le> c \<and> c \<le> 13) \<or> (28 \<le> c \<and> c \<le> 30) \<or> c = 133 \<or> c = 8232 \<or> c = 8233"

definition str_strip :: "pystr \<Rightarrow> pystr" where
  "str_strip s = rev (dropWhile is_whitespace (rev (dropWhile is_whitespace s)))"

definition startswith :: "pystr \<Rightarrow> pystr \<Rightarrow> bool" where
  "startswith s p = prefix p s"

fun str_partition :: "pystr \<Rightarrow> pystr \<Rightarrow> (pystr \<times> pystr) option" where
  "str_partition sep [] = (if sep = [] then Some ([], []) else None)"
| "str_partition sep (c # cs) =
     (if prefix sep (c # cs) then Some ([], drop (length sep) (c # cs))
      else case str_partition sep cs of
             None \<Rightarrow> None
           | Some (a, b) \<Rightarrow> Some (c # a, b))"

definition str_split1 :: "pystr \<Rightarrow> pystr \<Rightarrow> error + pystr list" where
  "str_split1 s sep =
     (if sep = [] then Inl ValueError
      else case str_partition sep s of
             None \<Rightarrow> Inr [s]
           | Some (a, b) \<Rightarrow> Inr [a, b])"

definition TITLE_MARK :: pystr where "TITLE_MARK = ascii ''TITLE:''"
definition CONTENT_SEP :: pystr where "CONTENT_SEP = ascii ''\<newline>--CONTENT--\<newline>''"

definition full_entry_data :: "pystr \<Rightarrow> pystr \<Rightarrow> pystr" where
  "full_entry_data title content = TITLE_MARK @ title @ CONTENT_SEP @ content"

definition parse_entry :: "pystr \<Rightarrow> pystr \<Rightarrow> error + (pystr \<times> pystr)" where
  "parse_entry selected_note decrypted_full_entry =
     (case str_split1 decrypted_full_entry CONTENT_SEP of
        Inl e \<Rightarrow> Inl e
      | Inr parts \<Rightarrow>
          if length parts = 2 \<and> startswith (parts ! 0) TITLE_MARK
          then Inr (str_strip (slice_from (parts ! 0) (py_len TITLE_MARK)), parts ! 1)
          else Inr (ascii ''Zecret: '' @ selected_note, decrypted_full_entry))"

text \<open>
  The separator starts inside a title when the title followed by the separator holds an
  occurrence of the separator that begins before the title ends.
\<close>

definition separator_starts_inside :: "pystr \<Rightarrow> bool" where
  "separator_starts_inside title \<longleftrightarrow> sublist CONTENT_SEP (title @ butlast CONTENT_SEP)"


definition example_note :: pystr where
  "example_note = ascii ''20240101_120000_123.rz''"

definition legacy_payload :: pystr where
  "legacy_payload = ascii ''legacy text''"

definition framed_payload :: pystr where
  "framed_payload = ascii ''TITLE: T \<newline>--CONTENT--\<newline>hello\<newline>world''"

definition padded_title :: pystr where
  "padded_title = ascii ''  Groceries ''"

definition clean_title :: pystr where
  "clean_title = ascii ''Groceries''"

definition example_body :: pystr where
  "example_body = ascii ''hello\<newline>world''"

section \<open>Editing an entry: the buffer an edit session starts with\<close>

text \<open>
  \<open>splitlines_from cur s\<close> is \<open>str.splitlines\<close> with the characters \<open>cur\<close> of the line
  under way: a line ends at a line boundary, CR LF is one boundary, and a last line without
  a boundary is kept unless it is empty.
\<close>

fun splitlines_from :: "pystr \<Rightarrow> pystr \<Rightarrow> pystr list" where
  "splitlines_from cur [] = (if cur = [] then [] else [cur])"
| "splitlines_from cur [c] = (if is_linebreak c then [cur] else [cur @ [c]])"
| "splitlines_from cur (c # d # ds) =
     (if c = 13 \<and> d = 10 then cur # splitlines_from [] ds
      else if is_linebreak c then cur # splitlines_from [] (d # ds)
      else splitlines_from (cur @ [c]) (d # ds))"

definition splitlines :: "pystr \<Rightarrow> pystr list" where
  "splitlines s = splitlines_from [] s"

definition APPENDED_MARKER :: pystr where
  "APPENDED_MARKER = ascii ''\<newline>\<newline>--- APPENDED CONTENT ---\<newline>\<newline>''"

definition initial_content :: "bool \<Rightarrow> pystr \<Rightarrow> pystr" where
  "initial_content is_append_mode old_content =
     (if is_append_mode then old_content @ APPENDED_MARKER else old_content)"

definition prepare_initial_lines :: "bool \<Rightarrow> pystr \<Rightarrow> pystr list" where
  "prepare_initial_lines is_append_mode old_content =
     (let ls = splitlines (initial_content is_append_mode old_content)
      in if ls = [] then [[]] else ls)"

definition start_editor :: "pystr list \<Rightarrow> editor" where
  "start_editor initial_lines =
     \<lparr>lines = (if initial_lines \<noteq> [] then initial_lines else [[]]),
      current_line_idx = 0, cursor_x = 0, top_line_idx = 0\<rparr>"

text \<open>
  \<open>open_line_empty cur s\<close>: after \<open>s\<close> the line under way is empty and \<open>s\<close> does not end
  with a carriage return, so a newline after \<open>s\<close> ends an empty line.
\<close>

definition open_line_empty :: "pystr \<Rightarrow> pystr \<Rightarrow> bool" where
  "open_line_empty cur s \<longleftrightarrow>
     (if s = [] then cur = [] else is_linebreak (last s) \<and> last s \<noteq> 13)"

text \<open>
  The editor loop of \<open>get_multiline_input\<close> and \<open>get_multiline_input_with_content\<close> over
  the events that \<open>getch\<close> delivers. The loop ends with the lines (Ctrl+D, Ctrl+G) or with
  \<open>None\<close> (KeyboardInterrupt, or a window without room); while the events are used up it
  waits in \<open>getch\<close>. Drawing is not part of the model.
\<close>

datatype event = Key int | KeyboardInterrupt

datatype session = Finished "pystr list" | Cancelled | Waiting editor

fun editor_loop :: "int \<Rightarrow> editor \<Rightarrow> event list \<Rightarrow> error + session" where
  "editor_loop edit_win_h st [] = Inr (Waiting st)"
| "editor_loop edit_win_h st (KeyboardInterrupt # evs) = Inr Cancelled"
| "editor_loop edit_win_h st (Key key # evs) =
     (case process_input edit_win_h key st of
        Inl e \<Rightarrow> Inl e
      | Inr None \<Rightarrow> Inr (Finished (lines st))
      | Inr (Some st') \<Rightarrow> editor_loop edit_win_h st' evs)"

definition get_multiline_input_with_content ::
  "int \<Rightarrow> int \<Rightarrow> int \<Rightarrow> int \<Rightarrow> pystr list \<Rightarrow> event list \<Rightarrow> error + session" where
  "get_multiline_input_with_content max_y max_x y_start x_start initial_lines evs =
     (let edit_win_y = y_start + 2;
          edit_win_h = max_y - edit_win_y - 1;
          edit_win_w = max_x - x_start - 2
      in if edit_win_h \<le> 0 \<or> edit_win_w \<le> 0 then Inr Cancelled
         else editor_loop edit_win_h (start_editor initial_lines) evs)"

definition get_multiline_input :: "int \<Rightarrow> int \<Rightarrow> int \<Rightarrow> int \<Rightarrow> event list \<Rightarrow> error + session" where
  "get_multiline_input max_y max_x y_start x_start evs =
     (let edit_win_y = y_start + 2;
          edit_win_h = max_y - edit_win_y - 1;
          edit_win_w = max_x - x_start - 2
      in if edit_win_h \<le> 0 \<or> edit_win_w \<le> 0 then Inr Cancelled
         else editor_loop edit_win_h
                \<lparr>lines = [[]], current_line_idx = 0, cursor_x = 0, top_line_idx = 0\<rparr> evs)"

section \<open>UTF-8: \<open>str.encode('utf-8')\<close> and \<open>bytes.decode('utf-8')\<close>\<close>

text \<open>
  Encoding raises UnicodeEncodeError on a surrogate code point; decoding is strict: it
  rejects overlong forms, surrogates, code points beyond U+10FFFF and broken sequences.
  \<open>unicode_text\<close> holds of the strings made of Unicode scalar values, which is what typing
  and decoding produce.
\<close>

definition is_surrogate :: "nat \<Rightarrow> bool" where
  "is_surrogate c \<longleftrightarrow> 55296 \<le> c \<and> c \<le> 57343"

definition is_continuation :: "nat \<Rightarrow> bool" where
  "is_continuation b \<longleftrightarrow> 128 \<le> b \<and> b < 192"

definition encode_code_point :: "nat \<Rightarrow> error + pybytes" where
  "encode_code_point c =
     (if c < 128 then Inr [c]
      else if c < 2048 then Inr [192 + c div 64, 128 + c mod 64]
      else if c < 65536 then
        (if is_surrogate c then Inl UnicodeEncodeError
         else Inr [224 + c div 4096, 128 + c div 64 mod 64, 128 + c mod 64])
      else if c < 1114112 then
        Inr [240 + c div 262144, 128 + c div 4096 mod 64, 128 + c div 64 mod 64, 128 + c mod 64]
      else Inl UnicodeEncodeError)"

fun utf8_encode :: "pystr \<Rightarrow> error + pybytes" where
  "utf8_encode [] = Inr []"
| "utf8_encode (c # cs) =
     (case encode_code_point c of
        Inl e \<Rightarrow> Inl e
      | Inr b \<Rightarrow> (case utf8_encode cs of Inl e \<Rightarrow> Inl e | Inr bs \<Rightarrow> Inr (b @ bs)))"

fun utf8_decode :: "pybytes \<Rightarrow> pystr option" where
  "utf8_decode [] = Some []"
| "utf8_decode (b # bs) =
     (if b < 128 then map_option (Cons b) (utf8_decode bs)
      else if 194 \<le> b \<and> b < 224 then
        (case bs of
           b1 # r \<Rightarrow>
             if is_continuation b1
             then map_option (Cons ((b - 192) * 64 + (b1 - 128))) (utf8_decode r)
             else None
         | _ \<Rightarrow> None)
      else if 224 \<le> b \<and> b < 240 then
        (case bs of
           b1 # b2 # r \<Rightarrow>
             (let c = (b - 224) * 4096 + (b1 - 128) * 64 + (b2 - 128)
              in if is_continuation b1 \<and> is_continuation b2 \<and> 2048 \<le> c \<and> \<not> is_surrogate c
                 then map_option (Cons c) (utf8_decode r)
                 else None)
         | _ \<Rightarrow> None)
      else if 240 \<le> b \<and> b < 245 then
        (case bs of
           b1 # b2 # b3 # r \<Rightarrow>
             (let c = (b - 240) * 262144 + (b1 - 128) * 4096 + (b2 - 128) * 64 + (b3 - 128)
              in if is_continuation b1 \<and> is_continuation b2 \<and> is_continuation b3 \<and>
                    65536 \<le> c \<and> c < 1114112
                 then map_option (Cons c) (utf8_decode r)
                 else None)
         | _ \<Rightarrow> None)
      else None)"

definition unicode_text :: "pystr \<Rightarrow> bool" where
  "unicode_text s \<longleftrightarrow> list_all (\<lambda>c. c < 1114112 \<and> \<not> is_surrogate c) s"

section \<open>Library functions\<close>

text \<open>
  Fernet, PBKDF2-HMAC-SHA256, base64 and SHA-256 come from libraries; the program is
  modelled over a record of them. \<open>fernet_key_ok\<close> holds of the keys that \<open>Fernet(key)\<close>
  accepts (it raises ValueError otherwise), \<open>fernet_encrypt\<close> takes the key, the entropy of
  the call (time stamp and IV) and the data, \<open>fernet_decrypt\<close> returns \<open>None\<close> for
  InvalidToken. \<open>fernet_round_trip\<close> is Fernet's contract for one key.
\<close>

record library =
  fernet_key_ok :: "pybytes \<Rightarrow> bool"
  fernet_encrypt :: "pybytes \<Rightarrow> pybytes \<Rightarrow> pybytes \<Rightarrow> pybytes"
  fernet_decrypt :: "pybytes \<Rightarrow> pybytes \<Rightarrow> pybytes option"
  pbkdf2_derive :: "pybytes \<Rightarrow> nat \<Rightarrow> pybytes \<Rightarrow> pybytes"
  urlsafe_b64encode :: "pybytes \<Rightarrow> pybytes"
  sha256_hexdigest :: "pybytes \<Rightarrow> pystr"

definition fernet_round_trip :: "library \<Rightarrow> pybytes \<Rightarrow> bool" where
  "fernet_round_trip L k \<longleftrightarrow>
     (\<forall>entropy d. fernet_decrypt L k (fernet_encrypt L k entropy d) = Some d)"

definition SALT_SIZE :: nat where "SALT_SIZE = 16"

definition KEY_ITERATIONS :: nat where "KEY_ITERATIONS = 100000"

definition ENTRY_EXTENSION :: pystr where "ENTRY_EXTENSION = ascii ''.rz''"

definition get_key_from_password :: "library \<Rightarrow> pystr \<Rightarrow> pybytes \<Rightarrow> error + pybytes" where
  "get_key_from_password L password salt =
     (case utf8_encode password of
        Inl e \<Rightarrow> Inl e
      | Inr pw \<Rightarrow> Inr (urlsafe_b64encode L (pbkdf2_derive L salt KEY_ITERATIONS pw)))"

definition encrypt_data :: "library \<Rightarrow> pystr \<Rightarrow> pybytes \<Rightarrow> pybytes \<Rightarrow> error + pybytes" where
  "encrypt_data L data key entropy =
     (if \<not> fernet_key_ok L key then Inl ValueError
      else case utf8_encode data of
             Inl e \<Rightarrow> Inl e
           | Inr b \<Rightarrow> Inr (fernet_encrypt L key entropy b))"

definition decrypt_data :: "library \<Rightarrow> pybytes \<Rightarrow> pybytes \<Rightarrow> error + pystr option" where
  "decrypt_data L encrypted_data key =
     (if \<not> fernet_key_ok L key then Inl ValueError
      else case fernet_decrypt L key encrypted_data of
             None \<Rightarrow> Inr None
           | Some decrypted \<Rightarrow>
               (case utf8_decode decrypted of
                  None \<Rightarrow> Inr None
                | Some s \<Rightarrow> Inr (Some s)))"

section \<open>The vault on disk\<close>

text \<open>
  The files of the notes directory with their contents, the credential of the password file
  (the salt and the hash that its line holds; \<open>None\<close> when the file is missing or does
  not parse), and the faults of the storage: the notes that cannot be opened for reading
  (\<open>unreadable\<close>) or for writing (\<open>unwritable\<close>), the notes on which \<open>open(path, "wb")\<close>
  succeeds and the write then raises (\<open>write_breaks\<close>: the file is left truncated), and
  the step at which saving the password file fails, if any.
\<close>

datatype credential_fault = OpenFails | WriteFails | ChmodFails

record vault =
  notes_dir :: "(pystr \<times> pybytes) list"
  password_file :: "(pybytes \<times> pystr) option"
  unreadable :: "pystr list"
  unwritable :: "pystr list"
  write_breaks :: "pystr list"
  password_file_fault :: "credential_fault option"

definition read_file :: "vault \<Rightarrow> pystr \<Rightarrow> error + pybytes" where
  "read_file v name =
     (if name \<in> set (unreadable v) then Inl IOError
      else case map_of (notes_dir v) name of
             None \<Rightarrow> Inl IOError
           | Some b \<Rightarrow> Inr b)"

text \<open>
  \<open>write_file\<close> is \<open>with open(path, "wb") as f: f.write(data)\<close>: the vault after it, and the
  exception it raised, if any. Opening truncates the file, so a write that raises after
  that leaves an empty file.
\<close>

definition write_file :: "vault \<Rightarrow> pystr \<Rightarrow> pybytes \<Rightarrow> vault \<times> error option" where
  "write_file v name data =
     (if name \<in> set (unwritable v) then (v, Some IOError)
      else if name \<in> set (write_breaks v)
      then (v\<lparr>notes_dir := AList.update name [] (notes_dir v)\<rparr>, Some IOError)
      else (v\<lparr>notes_dir := AList.update name data (notes_dir v)\<rparr>, None))"

text \<open>
  The entries of the vault: the files of the notes directory whose name ends with the entry
  extension, in the order of the directory.
\<close>

definition stored_entries :: "vault \<Rightarrow> pystr list" where
  "stored_entries v = filter (\<lambda>f. suffix ENTRY_EXTENSION f) (map fst (notes_dir v))"

definition endswith :: "pystr \<Rightarrow> pystr \<Rightarrow> bool" where
  "endswith s e = suffix e s"

definition get_sorted_notes :: "vault \<Rightarrow> pystr list" where
  "get_sorted_notes v =
     rev (sort (filter (\<lambda>f. endswith f ENTRY_EXTENSION) (map fst (notes_dir v))))"

section \<open>The credential\<close>

text \<open>
  \<open>save_password_hash\<close> opens the password file with \<open>"w"\<close>, writes the line and sets the
  permissions; an IOError at any of the three steps makes it return \<open>(None, None)\<close>. When
  opening fails the file is as it was, when the write fails it is left truncated, and when
  \<open>os.chmod\<close> fails it already holds the new credential.
\<close>

definition save_password_hash ::
  "library \<Rightarrow> pystr \<Rightarrow> pybytes \<Rightarrow> vault \<Rightarrow> error + (vault \<times> (pybytes \<times> pybytes) option)" where
  "save_password_hash L password salt v =
     (case get_key_from_password L password salt of
        Inl e \<Rightarrow> Inl e
      | Inr key \<Rightarrow>
          (let key_hash = sha256_hexdigest L key
           in case password_file_fault v of
                None \<Rightarrow> Inr (v\<lparr>password_file := Some (salt, key_hash)\<rparr>, Some (salt, key))
              | Some OpenFails \<Rightarrow> Inr (v, None)
              | Some WriteFails \<Rightarrow> Inr (v\<lparr>password_file := None\<rparr>, None)
              | Some ChmodFails \<Rightarrow> Inr (v\<lparr>password_file := Some (salt, key_hash)\<rparr>, None)))"

definition load_password_salt_and_hash :: "vault \<Rightarrow> (pybytes \<times> pystr) option" where
  "load_password_salt_and_hash v = password_file v"

definition verify_password ::
  "library \<Rightarrow> pystr \<Rightarrow> pybytes \<Rightarrow> pystr \<Rightarrow> error + (bool \<times> pybytes)" where
  "verify_password L password salt stored_key_hash =
     (case get_key_from_password L password salt of
        Inl e \<Rightarrow> Inl e
      | Inr key \<Rightarrow> Inr (sha256_hexdigest L key = stored_key_hash, key))"

section \<open>Typed input\<close>

text \<open>
  \<open>get_string_input\<close> over the keys that \<open>getch\<close> delivers: it appends printable ASCII up to
  \<open>max_len\<close> characters. \<open>typed_password\<close> holds of what a password prompt (50 characters)
  can return.
\<close>

datatype input = Entered pystr | CancelledInput | AwaitingKey pystr

fun string_input_loop :: "nat \<Rightarrow> pystr \<Rightarrow> event list \<Rightarrow> input" where
  "string_input_loop max_len text [] = AwaitingKey text"
| "string_input_loop max_len text (KeyboardInterrupt # evs) = CancelledInput"
| "string_input_loop max_len text (Key key # evs) =
     (if key \<in> {KEY_ENTER, 10, 13} then Entered text
      else if key \<in> {KEY_BACKSPACE, 127, 8} then
        (if length text > 0 then string_input_loop max_len (butlast text) evs
         else string_input_loop max_len text evs)
      else if key = 27 then CancelledInput
      else if 32 \<le> key \<and> key \<le> 126 then
        (if length text < max_len then string_input_loop max_len (text @ [nat key]) evs
         else string_input_loop max_len text evs)
      else string_input_loop max_len text evs)"

definition get_string_input :: "int \<Rightarrow> int \<Rightarrow> int \<Rightarrow> int \<Rightarrow> pystr \<Rightarrow> nat \<Rightarrow> event list \<Rightarrow> input" where
  "get_string_input max_y max_x y x prompt max_len evs =
     (if y \<ge> max_y \<or> x + py_len prompt + 1 \<ge> max_x then Entered []
      else string_input_loop max_len [] evs)"

definition typed_text :: "pystr \<Rightarrow> bool" where
  "typed_text s \<longleftrightarrow> list_all (\<lambda>c. 32 \<le> c \<and> c \<le> 126) s"

section \<open>Re-encryption\<close>

text \<open>
  Steps 3 and 4 of \<open>change_password\<close>, after the old password is verified and the new one
  accepted: save the new credential, then re-encrypt every note. Every exception inside the
  loop body counts as a failure of that note.
\<close>

definition reencrypt_note ::
  "library \<Rightarrow> pybytes \<Rightarrow> pybytes \<Rightarrow> pybytes \<Rightarrow> pystr \<Rightarrow> vault \<Rightarrow> vault \<times> bool" where
  "reencrypt_note L old_key new_key entropy note_file v =
     (case read_file v note_file of
        Inl e \<Rightarrow> (v, False)
      | Inr encrypted_data \<Rightarrow>
          (case decrypt_data L encrypted_data old_key of
             Inl e \<Rightarrow> (v, False)
           | Inr None \<Rightarrow> (v, False)
           | Inr (Some decrypted_content) \<Rightarrow>
               (case encrypt_data L decrypted_content new_key entropy of
                  Inl e \<Rightarrow> (v, False)
                | Inr new_encrypted_data \<Rightarrow>
                    (case write_file v note_file new_encrypted_data of
                       (v', Some e) \<Rightarrow> (v', False)
                     | (v', None) \<Rightarrow> (v', True)))))"

fun reencrypt_notes ::
  "library \<Rightarrow> pybytes \<Rightarrow> pybytes \<Rightarrow> (nat \<Rightarrow> pybytes) \<Rightarrow> nat \<Rightarrow> pystr list \<Rightarrow> vault \<Rightarrow> nat \<Rightarrow> nat
     \<Rightarrow> vault \<times> nat \<times> nat" where
  "reencrypt_notes L old_key new_key entropy i [] v success_count fail_count =
     (v, success_count, fail_count)"
| "reencrypt_notes L old_key new_key entropy i (note_file # rest) v success_count fail_count =
     (case reencrypt_note L old_key new_key (entropy i) note_file v of
        (v', True) \<Rightarrow>
          reencrypt_notes L old_key new_key entropy (Suc i) rest v' (success_count + 1) fail_count
      | (v', False) \<Rightarrow>
          reencrypt_notes L old_key new_key entropy (Suc i) rest v' success_count (fail_count + 1))"

record report =
  password_changed :: bool
  session_key :: pybytes
  successes :: nat
  failures :: nat

definition change_password ::
  "library \<Rightarrow> pybytes \<Rightarrow> pystr \<Rightarrow> pybytes \<Rightarrow> (nat \<Rightarrow> pybytes) \<Rightarrow> vault \<Rightarrow> error + (vault \<times> report)" where
  "change_password L old_key new_password salt entropy v =
     (case save_password_hash L new_password salt v of
        Inl e \<Rightarrow> Inl e
      | Inr (v1, None) \<Rightarrow>
          Inr (v1, \<lparr>password_changed = False, session_key = old_key, successes = 0, failures = 0\<rparr>)
      | Inr (v1, Some (new_salt, new_key)) \<Rightarrow>
          if new_salt = [] \<or> new_key = [] then
            Inr (v1, \<lparr>password_changed = False, session_key = old_key, successes = 0, failures = 0\<rparr>)
          else
            (case reencrypt_notes L old_key new_key entropy 0 (get_sorted_notes v1) v1 0 0 of
               (v2, success_count, fail_count) \<Rightarrow>
                 Inr (v2, \<lparr>password_changed = True, session_key = new_key,
                           successes = success_count, failures = fail_count\<rparr>)))"

definition typed_password :: "pystr \<Rightarrow> bool" where
  "typed_password p \<longleftrightarrow> typed_text p \<and> length p \<le> 50"

text \<open>
  \<open>hex_digest\<close>: every digest of the library is 64 hexadecimal digits, as the
  \<open>hexdigest\<close> of SHA-256 is. \<open>accepted\<close>: with the credential that \<open>save_password_hash\<close>
  stores for \<open>p0\<close>, \<open>verify_password\<close> returns true for \<open>p\<close>.
\<close>

definition hex_digest :: "library \<Rightarrow> bool" where
  "hex_digest L \<longleftrightarrow>
     (\<forall>k. length (sha256_hexdigest L k) = 64 \<and>
          set (sha256_hexdigest L k) \<subseteq> set (ascii ''0123456789abcdef''))"

text \<open>A small instance of the library record, used to run the model on examples.\<close>

definition toy_library :: library where
  "toy_library =
     \<lparr>fernet_key_ok = (\<lambda>k. k \<noteq> []),
      fernet_encrypt = (\<lambda>k entropy d. (length k) # (k @ (length entropy) # (entropy @ d))),
      fernet_decrypt = (\<lambda>k token.
         case token of
           [] \<Rightarrow> None
         | n # r \<Rightarrow>
             if n = length k \<and> take n r = k then
               (case drop n r of
                  [] \<Rightarrow> None
                | m # r' \<Rightarrow> if m \<le> length r' then Some (drop m r') else None)
             else None),
      pbkdf2_derive = (\<lambda>salt iterations pw. salt @ pw),
      urlsafe_b64encode = (\<lambda>b. b),
      sha256_hexdigest = (\<lambda>b. b)\<rparr>"

definition toy_key :: pybytes where "toy_key = ascii ''old key''"

definition toy_salt :: pybytes where "toy_salt = ascii ''0123456789abcdef''"

definition empty_vault :: vault where
  "empty_vault =
     \<lparr>notes_dir = [], password_file = None, unreadable = [], unwritable = [],
      write_breaks = [], password_file_fault = None\<rparr>"

definition accepted :: "library \<Rightarrow> pybytes \<Rightarrow> pystr \<Rightarrow> pystr \<Rightarrow> bool" where
  "accepted L salt p0 p \<longleftrightarrow>
     (case save_password_hash L p0 salt empty_vault of
        Inr (v', Some c) \<Rightarrow>
          (case load_password_salt_and_hash v' of
             Some (stored_salt, stored_hash) \<Rightarrow>
               (case verify_password L p stored_salt stored_hash of
                  Inr (matched, key) \<Rightarrow> matched
                | Inl e \<Rightarrow> False)
           | None \<Rightarrow> False)
      | _ \<Rightarrow> False)"

section \<open>What a rotation does to one note\<close>

text \<open>
  \<open>rotatable\<close>: the note can be read, decrypts under the old key and can be written.
  \<open>write_breaks_off\<close>: the note can be read and decrypts, and its write raises after the
  file is truncated.
  \<open>undecryptable\<close>: the note is stored and does not decrypt under the old key.
  \<open>carried_over\<close>: the note decrypts under the new key to the plaintext it had under the
  old key. \<open>same_environment\<close>: the loop changes nothing but the contents of notes.
\<close>

definition rotatable :: "library \<Rightarrow> pybytes \<Rightarrow> vault \<Rightarrow> pystr \<Rightarrow> bool" where
  "rotatable L old_key v note_file \<longleftrightarrow>
     (case read_file v note_file of
        Inl e \<Rightarrow> False
      | Inr b \<Rightarrow>
          (case decrypt_data L b old_key of
             Inr (Some p) \<Rightarrow>
               note_file \<notin> set (unwritable v) \<and> note_file \<notin> set (write_breaks v)
           | _ \<Rightarrow> False))"

definition write_breaks_off :: "library \<Rightarrow> pybytes \<Rightarrow> vault \<Rightarrow> pystr \<Rightarrow> bool" where
  "write_breaks_off L old_key v note_file \<longleftrightarrow>
     (case read_file v note_file of
        Inl e \<Rightarrow> False
      | Inr b \<Rightarrow>
          (case decrypt_data L b old_key of
             Inr (Some p) \<Rightarrow>
               note_file \<notin> set (unwritable v) \<and> note_file \<in> set (write_breaks v)
           | _ \<Rightarrow> False))"

definition carried_over :: "library \<Rightarrow> pybytes \<Rightarrow> pybytes \<Rightarrow> vault \<Rightarrow> vault \<Rightarrow> pystr \<Rightarrow> bool" where
  "carried_over L old_key new_key v v' note_file \<longleftrightarrow>
     (\<exists>b b' p. map_of (notes_dir v) note_file = Some b \<and>
        map_of (notes_dir v') note_file = Some b' \<and>
        decrypt_data L b old_key = Inr (Some p) \<and>
        decrypt_data L b' new_key = Inr (Some p))"

definition same_environment :: "vault \<Rightarrow> vault \<Rightarrow> bool" where
  "same_environment v v' \<longleftrightarrow>
     unreadable v' = unreadable v \<and> unwritable v' = unwritable v \<and>
     write_breaks v' = write_breaks v \<and>
     password_file v' = password_file v \<and>
     password_file_fault v' = password_file_fault v \<and>
     map fst (notes_dir v') = map fst (notes_dir v)"

definition undecryptable :: "library \<Rightarrow> pybytes \<Rightarrow> vault \<Rightarrow> pystr \<Rightarrow> bool" where
  "undecryptable L old_key v note_file \<longleftrightarrow>
     (case map_of (notes_dir v) note_file of
        None \<Rightarrow> False
      | Some b \<Rightarrow>
          (case decrypt_data L b old_key of
             Inr (Some p) \<Rightarrow> False
           | _ \<Rightarrow> True))"

text \<open>Two vaults for the examples: one healthy, one with a damaged note.\<close>

definition other_note :: pystr where
  "other_note = ascii ''20240102_090000_456.rz''"

definition toy_new_password :: pystr where
  "toy_new_password = ascii ''newpassw0rd''"

definition toy_new_key :: pybytes where
  "toy_new_key = toy_salt @ toy_new_password"

definition toy_entropy :: "nat \<Rightarrow> pybytes" where
  "toy_entropy i = [i]"

definition healthy_vault :: vault where
  "healthy_vault =
     \<lparr>notes_dir =
        [(example_note, fernet_encrypt toy_library toy_key [1] framed_payload),
         (other_note, fernet_encrypt toy_library toy_key [2] legacy_payload)],
      password_file = Some (toy_salt, toy_salt @ ascii ''correctpw1''),
      unreadable = [], unwritable = [], write_breaks = [], password_file_fault = None\<rparr>"

definition damaged_vault :: vault where
  "damaged_vault =
     \<lparr>notes_dir =
        [(example_note, fernet_encrypt toy_library toy_key [1] framed_payload),
         (other_note, [1, 2, 3])],
      password_file = Some (toy_salt, toy_salt @ ascii ''correctpw1''),
      unreadable = [], unwritable = [], write_breaks = [], password_file_fault = None\<rparr>"

section \<open>Saving a new entry\<close>

text \<open>
  \<open>write_new_entry\<close> from the title and the content lines the prompts returned (\<open>None\<close> is a
  cancelled prompt), the clock reading \<open>now\<close> and the draw \<open>r\<close> of
  \<open>random.randint(100, 999)\<close>. The file name is \<open>strftime\<close> of the clock, the draw and the
  extension; the file is opened with \<open>"wb"\<close>, which replaces a file of that name. Every
  exception is caught and reported, and the function returns.
\<close>

record datetime =
  year :: nat
  month :: nat
  day :: nat
  hour :: nat
  minute :: nat
  second :: nat

function decimal :: "nat \<Rightarrow> pystr" where
  "decimal n = (if n < 10 then [48 + n] else decimal (n div 10) @ [48 + n mod 10])"
  by pat_completeness auto

termination
  by (relation "measure id") auto

definition zero_pad :: "nat \<Rightarrow> nat \<Rightarrow> pystr" where
  "zero_pad width n = replicate (width - length (decimal n)) 48 @ decimal n"

definition strftime_stamp :: "datetime \<Rightarrow> pystr" where
  "strftime_stamp now =
     zero_pad 4 (year now) @ zero_pad 2 (month now) @ zero_pad 2 (day now) @ ascii ''_'' @
     zero_pad 2 (hour now) @ zero_pad 2 (minute now) @ zero_pad 2 (second now)"

definition entry_filename :: "datetime \<Rightarrow> nat \<Rightarrow> pystr" where
  "entry_filename now r = strftime_stamp now @ ascii ''_'' @ decimal r @ ENTRY_EXTENSION"

fun str_join :: "pystr \<Rightarrow> pystr list \<Rightarrow> pystr" where
  "str_join sep [] = []"
| "str_join sep [x] = x"
| "str_join sep (x # y # zs) = x @ sep @ str_join sep (y # zs)"

definition write_new_entry ::
  "library \<Rightarrow> pybytes \<Rightarrow> datetime \<Rightarrow> nat \<Rightarrow> pybytes \<Rightarrow> pystr option \<Rightarrow> pystr list option
     \<Rightarrow> vault \<Rightarrow> vault" where
  "write_new_entry L encryption_key now r entropy title_input content_input v =
     (case title_input of
        None \<Rightarrow> v
      | Some typed_title \<Rightarrow>
          (let title = (if typed_title = [] then ascii ''Untitled Zecret'' else typed_title)
           in case content_input of
                None \<Rightarrow> v
              | Some content_lines \<Rightarrow>
                  (let content = str_join [10] content_lines
                   in if str_strip content = [] then v
                      else
                        (case encrypt_data L (full_entry_data title content) encryption_key entropy of
                           Inl e \<Rightarrow> v
                         | Inr encrypted_content \<Rightarrow>
                             if encrypted_content = [] then v
                             else
                               (case write_file v (entry_filename now r) encrypted_content of
                                  (v', raised) \<Rightarrow> v')))))"

text \<open>Two saves at the same clock reading with the same draw.\<close>

definition noon :: datetime where
  "noon = \<lparr>year = 2024, month = 1, day = 1, hour = 12, minute = 0, second = 0\<rparr>"

definition first_saved :: vault where
  "first_saved =
     write_new_entry toy_library toy_key noon 500 [1] (Some (ascii ''first''))
       (Some [ascii ''one'']) empty_vault"

definition both_saved :: vault where
  "both_saved =
     write_new_entry toy_library toy_key noon 500 [2] (Some (ascii ''second''))
       (Some [ascii ''two'']) first_saved"

section \<open>Text buffer: the invariant\<close>

lemmas py_defs = py_get_def py_set_def py_del_def py_index_def py_len_def py_insert_def
  slice_to_def slice_from_def

lemmas key_defs = KEY_ENTER_def KEY_BACKSPACE_def KEY_DC_def KEY_UP_def KEY_DOWN_def
  KEY_LEFT_def KEY_RIGHT_def

lemma py_get_current_line:
  "buffer_inv st \<Longrightarrow>
   py_get (lines st) (current_line_idx st) = Inr (lines st ! nat (current_line_idx st))"
  by (auto simp: buffer_inv_def py_defs)

lemma adjust_scroll_inv: "buffer_inv st \<Longrightarrow> buffer_inv (adjust_scroll h st)"
  by (auto simp: buffer_inv_def adjust_scroll_def)

lemma newline_inv:
  "buffer_inv st \<Longrightarrow>
   \<exists>st'. newline (lines st ! nat (current_line_idx st)) st = Inr st' \<and> buffer_inv st'"
  by (auto simp: buffer_inv_def newline_def py_defs Let_def nth_append)

lemma backspace_inv:
  "buffer_inv st \<Longrightarrow>
   \<exists>st'. backspace (lines st ! nat (current_line_idx st)) st = Inr st' \<and> buffer_inv st'"
  by (auto simp: buffer_inv_def backspace_def py_defs Let_def nth_append nat_diff_distrib)

lemma delete_forward_inv:
  "buffer_inv st \<Longrightarrow>
   \<exists>st'. delete_forward (lines st ! nat (current_line_idx st)) st = Inr st' \<and> buffer_inv st'"
  by (auto simp: buffer_inv_def delete_forward_def py_defs Let_def nth_append)

lemma move_up_inv: "buffer_inv st \<Longrightarrow> \<exists>st'. move_up st = Inr st' \<and> buffer_inv st'"
  by (auto simp: buffer_inv_def move_up_def py_defs Let_def)

lemma move_down_inv: "buffer_inv st \<Longrightarrow> \<exists>st'. move_down st = Inr st' \<and> buffer_inv st'"
  by (auto simp: buffer_inv_def move_down_def py_defs Let_def)

lemma move_left_inv: "buffer_inv st \<Longrightarrow> \<exists>st'. move_left st = Inr st' \<and> buffer_inv st'"
  by (auto simp: buffer_inv_def move_left_def py_defs Let_def)

lemma move_right_inv:
  "buffer_inv st \<Longrightarrow>
   \<exists>st'. move_right (lines st ! nat (current_line_idx st)) st = Inr st' \<and> buffer_inv st'"
  by (auto simp: buffer_inv_def move_right_def py_defs Let_def)

lemma insert_char_inv:
  "buffer_inv st \<Longrightarrow>
   \<exists>st'. insert_char key (lines st ! nat (current_line_idx st)) st = Inr st' \<and> buffer_inv st'"
  by (auto simp: buffer_inv_def insert_char_def py_defs Let_def)

lemma scroll_and_continue_inv:
  "\<exists>st'. r = Inr st' \<and> buffer_inv st' \<Longrightarrow>
   \<exists>st'. scroll_and_continue h r = Inr (Some st') \<and> buffer_inv st'"
  by (auto simp: scroll_and_continue_def adjust_scroll_inv)

lemma example_buffer_inv: "buffer_inv example_buffer"
  by (simp add: buffer_inv_def example_buffer_def py_len_def ascii_def)

lemma origin_buffer_inv: "buffer_inv origin_buffer"
  by (simp add: buffer_inv_def origin_buffer_def py_len_def ascii_def)

lemma process_input_keeps_invariant:
  assumes "buffer_inv st"
  shows "(key \<in> {4, 7} \<and> process_input h key st = Inr None) \<or>
         (\<exists>st'. process_input h key st = Inr (Some st') \<and> buffer_inv st')"
proof -
  let ?l = "lines st ! nat (current_line_idx st)"
  have g: "py_get (lines st) (current_line_idx st) = Inr ?l"
    using assms by (rule py_get_current_line)
  have same: "\<exists>st'. (Inr st :: error + editor) = Inr st' \<and> buffer_inv st'"
    using assms by simp
  show ?thesis
    unfolding process_input_def g sum.case
    using scroll_and_continue_inv[OF newline_inv[OF assms], of h]
      scroll_and_continue_inv[OF backspace_inv[OF assms], of h]
      scroll_and_continue_inv[OF delete_forward_inv[OF assms], of h]
      scroll_and_continue_inv[OF move_up_inv[OF assms], of h]
      scroll_and_continue_inv[OF move_down_inv[OF assms], of h]
      scroll_and_continue_inv[OF move_left_inv[OF assms], of h]
      scroll_and_continue_inv[OF move_right_inv[OF assms], of h]
      scroll_and_continue_inv[OF insert_char_inv[OF assms], of h key]
      scroll_and_continue_inv[OF same, of h]
    by (simp add: key_defs)
qed

text \<open>
  C8. Every pass of the editor loop over a buffer that satisfies the invariant (the list of
  lines is not empty, the cursor line is an index of it, the cursor column lies between 0 and
  the length of the cursor line) raises nothing and either ends the session (Ctrl+D, Ctrl+G)
  or continues with a buffer that satisfies the invariant again. The keys cover insert
  character, newline, backspace, delete-forward and the four cursor moves; every other key
  leaves the buffer as it is.
\<close>

theorem transitions_preserve_invariant:
  assumes "buffer_inv st"
  shows "(key \<in> {4, 7} \<and> process_input h key st = Inr None) \<or>
         (\<exists>st'. process_input h key st = Inr (Some st') \<and> buffer_inv st')"
  using assms by (rule process_input_keeps_invariant)

theorem transitions_preserve_invariant_witness:
  "buffer_inv example_buffer \<and>
   (\<exists>st'. process_input 20 10 example_buffer = Inr (Some st') \<and> buffer_inv st')"
  using transitions_preserve_invariant[OF example_buffer_inv, of 10 20] example_buffer_inv
  by simp

text \<open>
  C9. In a buffer whose cursor is on line 0 at column 0, backspace (any of its three key
  codes) changes neither the lines nor the cursor line nor the cursor column.
\<close>

theorem backspace_at_origin_changes_nothing:
  assumes "buffer_inv st" and "current_line_idx st = 0" and "cursor_x st = 0"
    and "key \<in> {KEY_BACKSPACE, 127, 8}"
  shows "\<exists>st'. process_input h key st = Inr (Some st') \<and> lines st' = lines st \<and>
           current_line_idx st' = current_line_idx st \<and> cursor_x st' = cursor_x st"
  using assms
  by (auto simp: process_input_def scroll_and_continue_def adjust_scroll_def backspace_def
      buffer_inv_def py_defs key_defs)

theorem backspace_at_origin_changes_nothing_witness:
  "buffer_inv origin_buffer \<and> current_line_idx origin_buffer = 0 \<and> cursor_x origin_buffer = 0 \<and>
   (127::int) \<in> {KEY_BACKSPACE, 127, 8} \<and>
   (\<exists>st'. process_input 20 127 origin_buffer = Inr (Some st') \<and>
      lines st' = lines origin_buffer \<and>
      current_line_idx st' = current_line_idx origin_buffer \<and>
      cursor_x st' = cursor_x origin_buffer)"
  using backspace_at_origin_changes_nothing[OF origin_buffer_inv, of 127 20] origin_buffer_inv
  by (simp add: origin_buffer_def)

text \<open>
  Along a whole session: the editor starts with a buffer that satisfies the invariant, and
  whatever keys arrive the loop raises nothing; it ends with a non-empty list of lines or
  with a cancellation, or it waits for the next key with a buffer that satisfies the
  invariant.
\<close>

lemma start_editor_inv: "buffer_inv (start_editor initial_lines)"
  by (simp add: buffer_inv_def start_editor_def py_len_def)

lemma editor_loop_safe:
  "buffer_inv st \<Longrightarrow>
   (\<exists>ls. editor_loop h st evs = Inr (Finished ls) \<and> ls \<noteq> []) \<or>
   editor_loop h st evs = Inr Cancelled \<or>
   (\<exists>st'. editor_loop h st evs = Inr (Waiting st') \<and> buffer_inv st')"
proof (induction h st evs rule: editor_loop.induct)
  case (1 edit_win_h st)
  then show ?case by simp
next
  case (2 edit_win_h st evs)
  show ?case by simp
next
  case (3 edit_win_h st key evs)
  from process_input_keeps_invariant[OF "3.prems", of key edit_win_h]
  show ?case
  proof
    assume "key \<in> {4, 7} \<and> process_input edit_win_h key st = Inr None"
    then show ?thesis using "3.prems" by (simp add: buffer_inv_def)
  next
    assume "\<exists>st'. process_input edit_win_h key st = Inr (Some st') \<and> buffer_inv st'"
    then obtain st' where s: "process_input edit_win_h key st = Inr (Some st')" "buffer_inv st'"
      by blast
    show ?thesis using "3.IH"[OF s(1) refl s(2)] s(1) by simp
  qed
qed

section \<open>Reading an entry back: title and content\<close>

lemma CONTENT_SEP_eq: "CONTENT_SEP = [10,45,45,67,79,78,84,69,78,84,45,45,10]"
  by (simp add: CONTENT_SEP_def ascii_def)
lemma TITLE_MARK_eq: "TITLE_MARK = [84,73,84,76,69,58]"
  by (simp add: TITLE_MARK_def ascii_def)

lemma str_partition_None: "sep \<noteq> [] \<Longrightarrow> str_partition sep s = None \<longleftrightarrow> \<not> sublist sep s"
  by (induction s) (auto simp: sublist_Cons_right split: option.splits)

lemma not_sublist_butlast: "sep \<noteq> [] \<Longrightarrow> \<not> sublist sep (butlast sep)"
  using sublist_length_le[of sep "butlast sep"] by (cases sep) auto

lemma prefix_before_sep:
  assumes "prefix sep (a @ sep @ b)" and "a \<noteq> []"
  shows "prefix sep (a @ butlast sep)"
proof (rule prefix_length_prefix)
  show "prefix sep (a @ sep @ b)" by fact
  have "a @ sep @ b = (a @ butlast sep) @ (drop (length sep - 1) sep @ b)"
    by (simp add: butlast_conv_take)
  then show "prefix (a @ butlast sep) (a @ sep @ b)"
    unfolding prefix_def by blast
  show "length sep \<le> length (a @ butlast sep)"
    using assms(2) by (cases a) auto
qed

lemma str_partition_Some:
  "sep \<noteq> [] \<Longrightarrow> str_partition sep s = Some (a, b) \<longleftrightarrow>
     s = a @ sep @ b \<and> \<not> sublist sep (a @ butlast sep)"
proof (induction s arbitrary: a)
  case Nil
  then show ?case by auto
next
  case (Cons c cs)
  show ?case
  proof (cases "prefix sep (c # cs)")
    case True
    have 1: "\<not> sublist sep (butlast sep)"
      using Cons.prems by (rule not_sublist_butlast)
    have 2: "a = []" if "c # cs = a @ sep @ b" "\<not> sublist sep (a @ butlast sep)"
      using prefix_before_sep[of sep a b] True that by auto
    have 3: "c # cs = sep @ drop (length sep) (c # cs)"
      using True by (metis append_eq_conv_conj prefix_def)
    show ?thesis
      using True 1 2 3 by (auto simp: append_eq_conv_conj)
  next
    case False
    have a_ne: "a \<noteq> []" if "c # cs = a @ sep @ b"
      using False that by (auto simp: prefix_def)
    have pre: "\<not> prefix sep (c # a' @ butlast sep)" if "cs = a' @ sep @ b" for a'
    proof
      assume "prefix sep (c # a' @ butlast sep)"
      moreover have "prefix (c # a' @ butlast sep) (c # cs)"
        unfolding that by (simp add: prefixeq_butlast)
      ultimately show False using False prefix_order.trans by blast
    qed
    show ?thesis
    proof
      assume "str_partition sep (c # cs) = Some (a, b)"
      then obtain a' where a': "a = c # a'" "str_partition sep cs = Some (a', b)"
        using False by (auto split: option.splits)
      then have "cs = a' @ sep @ b" "\<not> sublist sep (a' @ butlast sep)"
        using Cons.IH[OF Cons.prems, of a'] by auto
      then show "c # cs = a @ sep @ b \<and> \<not> sublist sep (a @ butlast sep)"
        using a'(1) pre[of a'] by (simp add: sublist_Cons_right)
    next
      assume r: "c # cs = a @ sep @ b \<and> \<not> sublist sep (a @ butlast sep)"
      then obtain a' where a': "a = c # a'" "cs = a' @ sep @ b"
        using a_ne by (cases a) auto
      then have "\<not> sublist sep (a' @ butlast sep)"
        using r by (simp add: sublist_Cons_right)
      then have "str_partition sep cs = Some (a', b)"
        using Cons.IH[OF Cons.prems, of a'] a'(2) by simp
      then show "str_partition sep (c # cs) = Some (a, b)"
        using False a'(1) by simp
    qed
  qed
qed


lemma prefix_stops_before:
  assumes "prefix m (a @ s # r)" and "s \<notin> set m"
  shows "prefix m a"
proof -
  from assms(1) consider "prefix m a" | us where "m = a @ us" "prefix us (s # r)"
    by (auto simp: prefix_append)
  then show ?thesis
  proof cases
    case 1
    then show ?thesis .
  next
    case 2
    then show ?thesis using assms(2) by (cases us) auto
  qed
qed

lemma newline_notin_TITLE_MARK: "10 \<notin> set TITLE_MARK"
  by (simp add: TITLE_MARK_eq)

lemma CONTENT_SEP_nonempty: "CONTENT_SEP \<noteq> []"
  by (simp add: CONTENT_SEP_eq)

lemma CONTENT_SEP_Cons: "CONTENT_SEP = 10 # tl CONTENT_SEP"
  by (simp add: CONTENT_SEP_eq)

lemma parse_entry_no_separator:
  "\<not> sublist CONTENT_SEP p \<Longrightarrow> parse_entry selected_note p = Inr (ascii ''Zecret: '' @ selected_note, p)"
  using str_partition_None[OF CONTENT_SEP_nonempty, of p]
  by (simp add: parse_entry_def str_split1_def CONTENT_SEP_nonempty)

lemma parse_entry_split:
  assumes "str_partition CONTENT_SEP p = Some (a, b)"
  shows "parse_entry selected_note p =
           (if prefix TITLE_MARK p then Inr (str_strip (drop (length TITLE_MARK) a), b)
            else Inr (ascii ''Zecret: '' @ selected_note, p))"
proof -
  have p: "p = a @ CONTENT_SEP @ b"
    using assms str_partition_Some[OF CONTENT_SEP_nonempty] by simp
  have "prefix TITLE_MARK a \<longleftrightarrow> prefix TITLE_MARK p"
  proof
    assume "prefix TITLE_MARK a"
    then show "prefix TITLE_MARK p" unfolding p by (simp add: prefix_prefix)
  next
    assume "prefix TITLE_MARK p"
    then have "prefix TITLE_MARK (a @ 10 # (tl CONTENT_SEP @ b))"
      unfolding p by (subst (asm) CONTENT_SEP_Cons) simp
    then show "prefix TITLE_MARK a"
      using newline_notin_TITLE_MARK by (rule prefix_stops_before)
  qed
  then show ?thesis
    using assms
    by (simp add: parse_entry_def str_split1_def CONTENT_SEP_nonempty startswith_def
        slice_from_def py_index_def py_len_def)
qed

lemma sublist_append_left_mono: "sublist xs ys \<Longrightarrow> sublist xs (zs @ ys)"
  by (auto simp: sublist_def) (metis append.assoc)

text \<open>
  C7. A decrypted payload is split at the leftmost content separator. The read never fails:
  it always returns a title and a content. When the payload holds no separator or does not
  begin with the title marker, the content is the whole payload and the title is synthesized
  from the file name; otherwise the payload is the title marker, a title, the leftmost
  separator and a body, and the read returns the stripped title and the body.
\<close>

theorem parse_entry_falls_back_without_framing:
  "(\<exists>title content. parse_entry selected_note p = Inr (title, content)) \<and>
   (\<not> sublist CONTENT_SEP p \<or> \<not> prefix TITLE_MARK p \<longrightarrow>
      parse_entry selected_note p = Inr (ascii ''Zecret: '' @ selected_note, p)) \<and>
   (sublist CONTENT_SEP p \<and> prefix TITLE_MARK p \<longrightarrow>
      (\<exists>t b. p = TITLE_MARK @ t @ CONTENT_SEP @ b \<and>
             \<not> sublist CONTENT_SEP (t @ butlast CONTENT_SEP) \<and>
             parse_entry selected_note p = Inr (str_strip t, b)))"
proof (cases "str_partition CONTENT_SEP p")
  case None
  then have "\<not> sublist CONTENT_SEP p"
    using str_partition_None[OF CONTENT_SEP_nonempty] by simp
  then show ?thesis by (simp add: parse_entry_no_separator)
next
  case (Some ab)
  obtain a b where ab: "ab = (a, b)" by (cases ab)
  have part: "str_partition CONTENT_SEP p = Some (a, b)" using Some ab by simp
  have p: "p = a @ CONTENT_SEP @ b" and lm: "\<not> sublist CONTENT_SEP (a @ butlast CONTENT_SEP)"
    using part str_partition_Some[OF CONTENT_SEP_nonempty] by simp_all
  have sub: "sublist CONTENT_SEP p" unfolding p by simp
  show ?thesis
  proof (cases "prefix TITLE_MARK p")
    case False
    then show ?thesis using parse_entry_split[OF part, of selected_note] by simp
  next
    case True
    then have "prefix TITLE_MARK (a @ 10 # (tl CONTENT_SEP @ b))"
      unfolding p by (subst (asm) CONTENT_SEP_Cons) simp
    then have "prefix TITLE_MARK a"
      using newline_notin_TITLE_MARK by (rule prefix_stops_before)
    then obtain t where t: "a = TITLE_MARK @ t" by (auto simp: prefix_def)
    have "\<not> sublist CONTENT_SEP (t @ butlast CONTENT_SEP)"
      using lm sublist_append_left_mono[of CONTENT_SEP "t @ butlast CONTENT_SEP" TITLE_MARK]
      unfolding t by auto
    moreover have "parse_entry selected_note p = Inr (str_strip t, b)"
      using parse_entry_split[OF part, of selected_note] True t by simp
    moreover have "p = TITLE_MARK @ t @ CONTENT_SEP @ b" unfolding p t by simp
    ultimately show ?thesis using True sub by blast
  qed
qed


theorem parse_entry_falls_back_without_framing_witness:
  "(\<not> sublist CONTENT_SEP legacy_payload \<and>
    parse_entry example_note legacy_payload
      = Inr (ascii ''Zecret: '' @ example_note, legacy_payload)) \<and>
   (sublist CONTENT_SEP framed_payload \<and> prefix TITLE_MARK framed_payload \<and>
    (\<exists>t b. framed_payload = TITLE_MARK @ t @ CONTENT_SEP @ b \<and>
           \<not> sublist CONTENT_SEP (t @ butlast CONTENT_SEP) \<and>
           parse_entry example_note framed_payload = Inr (str_strip t, b)))"
proof -
  have h1: "\<not> sublist CONTENT_SEP legacy_payload"
    by (simp add: legacy_payload_def ascii_def CONTENT_SEP_def sublist_Cons_right)
  have h2: "sublist CONTENT_SEP framed_payload"
    by (simp add: framed_payload_def ascii_def CONTENT_SEP_def sublist_Cons_right)
  have h3: "prefix TITLE_MARK framed_payload"
    by (simp add: framed_payload_def ascii_def TITLE_MARK_def)
  show ?thesis
    using parse_entry_falls_back_without_framing[of example_note legacy_payload]
      parse_entry_falls_back_without_framing[of example_note framed_payload] h1 h2 h3
    by blast
qed

lemma full_entry_partition:
  assumes "\<not> separator_starts_inside t"
  shows "str_partition CONTENT_SEP (full_entry_data t c) = Some (TITLE_MARK @ t, c)"
proof -
  have "\<not> sublist CONTENT_SEP ((TITLE_MARK @ t) @ butlast CONTENT_SEP)"
  proof
    assume "sublist CONTENT_SEP ((TITLE_MARK @ t) @ butlast CONTENT_SEP)"
    then have "sublist CONTENT_SEP (TITLE_MARK @ (t @ butlast CONTENT_SEP))" by simp
    then show False
      using assms unfolding separator_starts_inside_def
      by (simp add: TITLE_MARK_eq CONTENT_SEP_eq sublist_Cons_right)
  qed
  then show ?thesis
    using str_partition_Some[OF CONTENT_SEP_nonempty, of "full_entry_data t c" "TITLE_MARK @ t" c]
    by (simp add: full_entry_data_def)
qed

lemma parse_full_entry:
  assumes "\<not> separator_starts_inside t"
  shows "parse_entry selected_note (full_entry_data t c) = Inr (str_strip t, c)"
  using parse_entry_split[OF full_entry_partition[OF assms], of selected_note c]
  by (simp add: full_entry_data_def)

lemma no_newline_no_separator:
  assumes "10 \<notin> set t"
  shows "\<not> separator_starts_inside t"
proof
  assume "separator_starts_inside t"
  then obtain ps ss where e: "t @ butlast CONTENT_SEP = ps @ CONTENT_SEP @ ss"
    by (auto simp: separator_starts_inside_def sublist_def)
  have len: "length ps < length t"
  proof -
    have "length (t @ butlast CONTENT_SEP) = length (ps @ CONTENT_SEP @ ss)"
      using e by simp
    then show ?thesis by (simp add: CONTENT_SEP_eq)
  qed
  have "(t @ butlast CONTENT_SEP) ! length ps = (ps @ CONTENT_SEP @ ss) ! length ps"
    using e by simp
  then have "t ! length ps = 10"
    using len by (simp add: nth_append CONTENT_SEP_eq)
  then show False using assms len by (metis nth_mem)
qed

lemma length_str_strip: "length (str_strip s) \<le> length s"
proof -
  have "length (dropWhile is_whitespace (rev (dropWhile is_whitespace s)))
          \<le> length (rev (dropWhile is_whitespace s))"
    by (rule length_dropWhile_le)
  also have "\<dots> \<le> length s" by (simp add: length_dropWhile_le)
  finally show ?thesis by (simp add: str_strip_def)
qed

lemma title_mark_before_separator:
  assumes "str_partition CONTENT_SEP p = Some (a, b)" and "prefix TITLE_MARK p"
  shows "prefix TITLE_MARK a"
proof -
  have p: "p = a @ CONTENT_SEP @ b"
    using assms(1) str_partition_Some[OF CONTENT_SEP_nonempty] by simp
  have "prefix TITLE_MARK (a @ 10 # (tl CONTENT_SEP @ b))"
    using assms(2) unfolding p by (subst (asm) CONTENT_SEP_Cons) simp
  then show ?thesis
    using newline_notin_TITLE_MARK by (rule prefix_stops_before)
qed



lemma exact_title_needs_clean_title:
  assumes "parse_entry selected_note (full_entry_data t c) = Inr (t, c')"
  shows "str_strip t = t \<and> \<not> separator_starts_inside t"
proof -
  have sub: "sublist CONTENT_SEP (full_entry_data t c)"
    by (simp add: full_entry_data_def sublist_append_left_mono)
  then obtain a b where part: "str_partition CONTENT_SEP (full_entry_data t c) = Some (a, b)"
    using str_partition_None[OF CONTENT_SEP_nonempty, of "full_entry_data t c"] by auto
  have pre: "prefix TITLE_MARK (full_entry_data t c)"
    by (simp add: full_entry_data_def)
  obtain t' where a: "a = TITLE_MARK @ t'"
    using title_mark_before_separator[OF part pre] by (auto simp: prefix_def)
  have res: "str_strip t' = t"
    using parse_entry_split[OF part, of selected_note] pre assms a by simp
  have eq: "t @ CONTENT_SEP @ c = t' @ CONTENT_SEP @ b"
    and lm: "\<not> sublist CONTENT_SEP (TITLE_MARK @ t' @ butlast CONTENT_SEP)"
    using part str_partition_Some[OF CONTENT_SEP_nonempty] a by (simp_all add: full_entry_data_def)
  have lm': "\<not> sublist CONTENT_SEP (t' @ butlast CONTENT_SEP)"
    using lm sublist_append_left_mono by blast
  have "length t \<le> length t'"
    using length_str_strip[of t'] res by simp
  then obtain u where u: "t' = t @ u"
    using eq by (metis append_eq_append_conv_if append_take_drop_id)
  have "u = []"
  proof (rule ccontr)
    assume "u \<noteq> []"
    moreover have "prefix CONTENT_SEP (u @ CONTENT_SEP @ b)"
      using eq unfolding u by (simp add: prefix_def) metis
    ultimately have "prefix CONTENT_SEP (u @ butlast CONTENT_SEP)"
      by (rule prefix_before_sep[rotated])
    then have "sublist CONTENT_SEP (t @ u @ butlast CONTENT_SEP)"
      using sublist_append_left_mono by blast
    then show False using lm' u by simp
  qed
  then show ?thesis
    using res lm' u by (simp add: separator_starts_inside_def)
qed


text \<open>
  C10 (amended). Saving an entry with title \<open>t\<close> and loading it yields \<open>t.strip()\<close>
  whenever the separator does not start inside \<open>t\<close>. The loaded title is \<open>t\<close> itself
  exactly when \<open>t.strip() = t\<close> and the separator does not start inside \<open>t\<close>. A title
  without a newline, as the title prompt produces, never has the separator start inside it.
\<close>

theorem title_round_trip:
  "(\<not> separator_starts_inside t \<longrightarrow>
      parse_entry selected_note (full_entry_data t c) = Inr (str_strip t, c)) \<and>
   ((\<exists>c'. parse_entry selected_note (full_entry_data t c) = Inr (t, c')) \<longleftrightarrow>
      str_strip t = t \<and> \<not> separator_starts_inside t) \<and>
   (10 \<notin> set t \<longrightarrow> \<not> separator_starts_inside t)"
proof -
  have fwd: "\<not> separator_starts_inside t \<Longrightarrow>
      parse_entry selected_note (full_entry_data t c) = Inr (str_strip t, c)"
    by (rule parse_full_entry)
  have exact: "(\<exists>c'. parse_entry selected_note (full_entry_data t c) = Inr (t, c')) \<longleftrightarrow>
      str_strip t = t \<and> \<not> separator_starts_inside t"
  proof
    assume "\<exists>c'. parse_entry selected_note (full_entry_data t c) = Inr (t, c')"
    then obtain c' where "parse_entry selected_note (full_entry_data t c) = Inr (t, c')" ..
    then show "str_strip t = t \<and> \<not> separator_starts_inside t"
      by (rule exact_title_needs_clean_title)
  next
    assume a: "str_strip t = t \<and> \<not> separator_starts_inside t"
    then have "parse_entry selected_note (full_entry_data t c) = Inr (t, c)"
      using fwd by simp
    then show "\<exists>c'. parse_entry selected_note (full_entry_data t c) = Inr (t, c')" ..
  qed
  have typed: "10 \<notin> set t \<Longrightarrow> \<not> separator_starts_inside t"
    by (rule no_newline_no_separator)
  show ?thesis
    using fwd exact typed by (intro conjI impI)
qed


theorem title_round_trip_witness:
  "(10 \<notin> set padded_title \<and> \<not> separator_starts_inside padded_title \<and>
    parse_entry example_note (full_entry_data padded_title example_body)
      = Inr (str_strip padded_title, example_body)) \<and>
   (str_strip clean_title = clean_title \<and> \<not> separator_starts_inside clean_title \<and>
    (\<exists>c'. parse_entry example_note (full_entry_data clean_title example_body)
            = Inr (clean_title, c')))"
proof -
  have h1: "10 \<notin> set padded_title"
    by (simp add: padded_title_def ascii_def)
  have h2: "10 \<notin> set clean_title"
    by (simp add: clean_title_def ascii_def)
  have h3: "str_strip clean_title = clean_title"
    by (simp add: clean_title_def ascii_def str_strip_def is_whitespace_def)
  show ?thesis
    using title_round_trip[of padded_title example_note example_body]
      title_round_trip[of clean_title example_note example_body] h1 h2 h3
    by blast
qed

text \<open>
  The title \<open>a\<newline>--CONTENT--\<close> has no leading or trailing whitespace and does not
  contain the separator, yet it is loaded as \<open>a\<close>: the separator of the payload starts at
  the newline inside the title.
\<close>

theorem title_round_trip_counterexample:
  "str_strip (ascii ''a\<newline>--CONTENT--'') = ascii ''a\<newline>--CONTENT--'' \<and>
   \<not> sublist CONTENT_SEP (ascii ''a\<newline>--CONTENT--'') \<and>
   parse_entry (ascii ''n.rz'') (full_entry_data (ascii ''a\<newline>--CONTENT--'') (ascii ''body''))
     = Inr (ascii ''a'', ascii ''--CONTENT--\<newline>body'') \<and>
   ascii ''a'' \<noteq> str_strip (ascii ''a\<newline>--CONTENT--'')"
proof -
  have 1: "str_strip (ascii ''a\<newline>--CONTENT--'') = ascii ''a\<newline>--CONTENT--''"
    by (simp add: ascii_def str_strip_def is_whitespace_def)
  have 2: "\<not> sublist CONTENT_SEP (ascii ''a\<newline>--CONTENT--'')"
    by (simp add: ascii_def CONTENT_SEP_def sublist_Cons_right)
  have 3: "parse_entry (ascii ''n.rz'')
             (full_entry_data (ascii ''a\<newline>--CONTENT--'') (ascii ''body''))
           = Inr (ascii ''a'', ascii ''--CONTENT--\<newline>body'')"
    by (simp add: ascii_def str_strip_def is_whitespace_def CONTENT_SEP_def
        parse_entry_def str_split1_def full_entry_data_def TITLE_MARK_def startswith_def
        slice_from_def py_index_def py_len_def)
  have 4: "ascii ''a'' \<noteq> str_strip (ascii ''a\<newline>--CONTENT--'')"
    unfolding 1 by (simp add: ascii_def)
  show ?thesis using 1 2 3 4 by (intro conjI)
qed

section \<open>Append mode\<close>

lemma is_linebreak_LF: "is_linebreak 10"
  by (simp add: is_linebreak_def)

lemma is_linebreak_CR: "is_linebreak 13"
  by (simp add: is_linebreak_def)

lemma splitlines_from_LF: "splitlines_from cur (10 # t) = cur # splitlines_from [] t"
  by (cases t) (simp_all add: is_linebreak_LF)

lemma splitlines_from_append_LF:
  "splitlines_from cur (s @ 10 # t) = splitlines_from cur (s @ [10]) @ splitlines_from [] t"
proof (induction cur s rule: splitlines_from.induct)
  case (1 cur)
  show ?case by (simp add: splitlines_from_LF is_linebreak_LF)
next
  case (2 cur c)
  show ?case by (simp add: splitlines_from_LF is_linebreak_LF)
next
  case (3 cur c d ds)
  then show ?case by simp
qed

lemma open_line_empty_Cons2: "open_line_empty cur (c # d # ds) = open_line_empty cur' (d # ds)"
  by (simp add: open_line_empty_def)

lemma open_line_empty_CRLF: "open_line_empty cur (13 # 10 # ds) = open_line_empty [] ds"
  by (simp add: open_line_empty_def is_linebreak_LF)

lemma splitlines_from_snoc_LF:
  "splitlines_from cur (s @ [10]) =
     splitlines_from cur s @ (if open_line_empty cur s then [[]] else [])"
proof (induction cur s rule: splitlines_from.induct)
  case (1 cur)
  show ?case by (simp add: is_linebreak_LF open_line_empty_def)
next
  case (2 cur c)
  show ?case by (auto simp: is_linebreak_LF is_linebreak_CR open_line_empty_def)
next
  case (3 cur c d ds)
  show ?case
  proof (cases "c = 13 \<and> d = 10")
    case True
    then show ?thesis using 3(1) by (simp add: open_line_empty_CRLF)
  next
    case False
    then have ne: "(c = 13 \<and> d = 10) = False" by simp
    show ?thesis
    proof (cases "is_linebreak c")
      case True
      have ih: "splitlines_from [] ((d # ds) @ [10]) =
                  splitlines_from [] (d # ds) @ (if open_line_empty [] (d # ds) then [[]] else [])"
        using 3(2)[OF False True] .
      have "splitlines_from cur ((c # d # ds) @ [10]) = cur # splitlines_from [] ((d # ds) @ [10])"
        by (simp add: ne True)
      moreover have "splitlines_from cur (c # d # ds) = cur # splitlines_from [] (d # ds)"
        by (simp add: ne True)
      ultimately show ?thesis
        unfolding ih open_line_empty_Cons2[of cur c d ds "[]"] by simp
    next
      case nl: False
      have ih: "splitlines_from (cur @ [c]) ((d # ds) @ [10]) =
                  splitlines_from (cur @ [c]) (d # ds) @
                    (if open_line_empty (cur @ [c]) (d # ds) then [[]] else [])"
        using 3(3)[OF False nl] .
      have "splitlines_from cur ((c # d # ds) @ [10]) = splitlines_from (cur @ [c]) ((d # ds) @ [10])"
        by (simp add: ne nl)
      moreover have "splitlines_from cur (c # d # ds) = splitlines_from (cur @ [c]) (d # ds)"
        by (simp add: ne nl)
      ultimately show ?thesis
        unfolding ih open_line_empty_Cons2[of cur c d ds "cur @ [c]"] by simp
    qed
  qed
qed

lemma marker_lines:
  "splitlines_from [] (tl APPENDED_MARKER) = [[], ascii ''--- APPENDED CONTENT ---'', []]"
  by (simp add: APPENDED_MARKER_def ascii_def is_linebreak_def)

lemma APPENDED_MARKER_Cons: "APPENDED_MARKER = 10 # tl APPENDED_MARKER"
  by (simp add: APPENDED_MARKER_def ascii_def)

lemma append_mode_lines:
  "prepare_initial_lines True old_content =
     splitlines old_content @
       (if open_line_empty [] old_content then [[]] else []) @
       [[], ascii ''--- APPENDED CONTENT ---'', []]"
proof -
  have "splitlines (old_content @ APPENDED_MARKER) =
          splitlines_from [] (old_content @ 10 # tl APPENDED_MARKER)"
    unfolding splitlines_def by (subst APPENDED_MARKER_Cons) simp
  also have "\<dots> = splitlines_from [] (old_content @ [10]) @ splitlines_from [] (tl APPENDED_MARKER)"
    by (rule splitlines_from_append_LF)
  also have "\<dots> = (splitlines old_content @ (if open_line_empty [] old_content then [[]] else [])) @
       [[], ascii ''--- APPENDED CONTENT ---'', []]"
    unfolding splitlines_from_snoc_LF marker_lines splitlines_def ..
  finally show ?thesis
    by (simp add: prepare_initial_lines_def initial_content_def Let_def)
qed


text \<open>
  C6 (amended). An edit session started in append mode, in a window with room for the
  editor, waits for the first key with this buffer: the lines of the old content, one empty
  line more when the old content is empty or ends with a line boundary other than a carriage
  return, then an empty line, the line \<open>--- APPENDED CONTENT ---\<close> and an empty line. The
  cursor is on line 0 at column 0.
\<close>

theorem append_mode_seeds_buffer_cursor_at_start:
  assumes "0 < max_y - (y_start + 2) - 1" and "0 < max_x - x_start - 2"
  shows "get_multiline_input_with_content max_y max_x y_start x_start
           (prepare_initial_lines True old_content) []
     = Inr (Waiting
         \<lparr>lines = splitlines old_content @
                    (if open_line_empty [] old_content then [[]] else []) @
                    [[], ascii ''--- APPENDED CONTENT ---'', []],
          current_line_idx = 0, cursor_x = 0, top_line_idx = 0\<rparr>)"
  using assms
  by (simp add: get_multiline_input_with_content_def start_editor_def append_mode_lines)

theorem append_mode_seeds_buffer_cursor_at_start_witness:
  "(0::int) < 24 - (15 + 2) - 1 \<and> (0::int) < 80 - 2 - 2 \<and>
   get_multiline_input_with_content 24 80 15 2
       (prepare_initial_lines True (ascii ''hello\<newline>world'')) []
     = Inr (Waiting
         \<lparr>lines = [ascii ''hello'', ascii ''world'', [], ascii ''--- APPENDED CONTENT ---'', []],
          current_line_idx = 0, cursor_x = 0, top_line_idx = 0\<rparr>)"
proof -
  have s: "splitlines (ascii ''hello\<newline>world'') = [ascii ''hello'', ascii ''world'']"
    by (simp add: splitlines_def ascii_def is_linebreak_def)
  have o: "\<not> open_line_empty [] (ascii ''hello\<newline>world'')"
    by (simp add: open_line_empty_def ascii_def is_linebreak_def)
  show ?thesis
    using append_mode_seeds_buffer_cursor_at_start[of 24 15 80 2 "ascii ''hello\<newline>world''"]
    by (simp add: s o)
qed

text \<open>
  With the old content \<open>a\<close> the session starts on line 0, and the last line of the buffer is
  line 3: the cursor is not at the end of the seeded buffer.
\<close>

theorem append_mode_cursor_counterexample:
  "get_multiline_input_with_content 24 80 15 2 (prepare_initial_lines True (ascii ''a'')) []
     = Inr (Waiting
         \<lparr>lines = [ascii ''a'', [], ascii ''--- APPENDED CONTENT ---'', []],
          current_line_idx = 0, cursor_x = 0, top_line_idx = 0\<rparr>) \<and>
   (0::int) \<noteq> py_len [ascii ''a'', [], ascii ''--- APPENDED CONTENT ---'', []] - 1"
  by (simp add: get_multiline_input_with_content_def start_editor_def prepare_initial_lines_def
      initial_content_def splitlines_def APPENDED_MARKER_def ascii_def is_linebreak_def py_len_def)

section \<open>UTF-8 round trip\<close>

lemma recombine: "(q::nat) div 64 * (64 * k) + q mod 64 * k = q * k"
proof -
  have "q * k = (q div 64 * 64 + q mod 64) * k" by simp
  also have "\<dots> = q div 64 * (64 * k) + q mod 64 * k"
    by (simp only: add_mult_distrib mult.assoc)
  finally show ?thesis by simp
qed

lemma split3: "(c::nat) div 4096 * 4096 + c div 64 mod 64 * 64 + c mod 64 = c"
proof -
  have "c div 4096 = c div 64 div 64" by (simp add: div_mult2_eq[symmetric])
  then have "c div 4096 * 4096 + c div 64 mod 64 * 64 = c div 64 * 64"
    using recombine[of "c div 64" 64] by simp
  then show ?thesis by simp
qed

lemma split4:
  "(c::nat) div 262144 * 262144 + c div 4096 mod 64 * 4096 + c div 64 mod 64 * 64 + c mod 64 = c"
proof -
  have "c div 262144 = c div 4096 div 64" by (simp add: div_mult2_eq[symmetric])
  then have "c div 262144 * 262144 + c div 4096 mod 64 * 4096 = c div 4096 * 4096"
    using recombine[of "c div 4096" 4096] by simp
  then show ?thesis using split3[of c] by simp
qed

lemma decode1: "b < 128 \<Longrightarrow> utf8_decode (b # r) = map_option (Cons b) (utf8_decode r)"
  by simp

lemma decode2:
  assumes "194 \<le> b" "b < 224" "is_continuation b1" "c = (b - 192) * 64 + (b1 - 128)"
  shows "utf8_decode (b # b1 # r) = map_option (Cons c) (utf8_decode r)"
  using assms by simp

lemma decode3:
  assumes "224 \<le> b" "b < 240" "is_continuation b1" "is_continuation b2"
    "c = (b - 224) * 4096 + (b1 - 128) * 64 + (b2 - 128)" "2048 \<le> c" "\<not> is_surrogate c"
  shows "utf8_decode (b # b1 # b2 # r) = map_option (Cons c) (utf8_decode r)"
  using assms by (simp add: Let_def)

lemma decode4:
  assumes "240 \<le> b" "b < 245" "is_continuation b1" "is_continuation b2" "is_continuation b3"
    "c = (b - 240) * 262144 + (b1 - 128) * 4096 + (b2 - 128) * 64 + (b3 - 128)"
    "65536 \<le> c" "c < 1114112"
  shows "utf8_decode (b # b1 # b2 # b3 # r) = map_option (Cons c) (utf8_decode r)"
  using assms by (simp add: Let_def)

lemma continuation_mod: "is_continuation (128 + n mod 64)"
  by (simp add: is_continuation_def)

lemma decode_encode_code_point:
  assumes "c < 1114112" and "\<not> is_surrogate c"
  shows "\<exists>b. encode_code_point c = Inr b \<and>
             utf8_decode (b @ rest) = map_option (Cons c) (utf8_decode rest)"
proof -
  consider "c < 128" | "128 \<le> c" "c < 2048" | "2048 \<le> c" "c < 65536" | "65536 \<le> c"
    by linarith
  then show ?thesis
  proof cases
    case 1
    then show ?thesis by (simp add: encode_code_point_def)
  next
    case 2
    have lo: "2 \<le> c div 64" using 2(1) by (simp add: le_div_geq)
    have hi: "c div 64 < 32" using 2(2) by (simp add: less_mult_imp_div_less)
    have "utf8_decode ((192 + c div 64) # (128 + c mod 64) # rest)
            = map_option (Cons c) (utf8_decode rest)"
    proof (rule decode2)
      show "194 \<le> 192 + c div 64" using lo by simp
      show "192 + c div 64 < 224" using hi by simp
      show "is_continuation (128 + c mod 64)" by (rule continuation_mod)
      show "c = (192 + c div 64 - 192) * 64 + (128 + c mod 64 - 128)" by simp
    qed
    then show ?thesis using 2 by (simp add: encode_code_point_def)
  next
    case 3
    have hi: "c div 4096 < 16" using 3(2) by (simp add: less_mult_imp_div_less)
    have "utf8_decode ((224 + c div 4096) # (128 + c div 64 mod 64) # (128 + c mod 64) # rest)
            = map_option (Cons c) (utf8_decode rest)"
    proof (rule decode3)
      show "224 \<le> 224 + c div 4096" by simp
      show "224 + c div 4096 < 240" using hi by simp
      show "is_continuation (128 + c div 64 mod 64)" by (rule continuation_mod)
      show "is_continuation (128 + c mod 64)" by (rule continuation_mod)
      show "c = (224 + c div 4096 - 224) * 4096 + (128 + c div 64 mod 64 - 128) * 64
                + (128 + c mod 64 - 128)"
        using split3[of c] by simp
      show "2048 \<le> c" by fact
      show "\<not> is_surrogate c" by fact
    qed
    then show ?thesis using 3 assms(2) by (simp add: encode_code_point_def)
  next
    case 4
    have hi: "c div 262144 < 5" using assms(1) by (simp add: less_mult_imp_div_less)
    have "utf8_decode ((240 + c div 262144) # (128 + c div 4096 mod 64) # (128 + c div 64 mod 64)
             # (128 + c mod 64) # rest)
            = map_option (Cons c) (utf8_decode rest)"
    proof (rule decode4)
      show "240 \<le> 240 + c div 262144" by simp
      show "240 + c div 262144 < 245" using hi by simp
      show "is_continuation (128 + c div 4096 mod 64)" by (rule continuation_mod)
      show "is_continuation (128 + c div 64 mod 64)" by (rule continuation_mod)
      show "is_continuation (128 + c mod 64)" by (rule continuation_mod)
      show "c = (240 + c div 262144 - 240) * 262144 + (128 + c div 4096 mod 64 - 128) * 4096
                + (128 + c div 64 mod 64 - 128) * 64 + (128 + c mod 64 - 128)"
        using split4[of c] by simp
      show "65536 \<le> c" by fact
      show "c < 1114112" by fact
    qed
    then show ?thesis using 4 assms(1) by (simp add: encode_code_point_def)
  qed
qed

lemma utf8_round_trip:
  "unicode_text p \<Longrightarrow> \<exists>b. utf8_encode p = Inr b \<and> utf8_decode b = Some p"
proof (induction p)
  case Nil
  show ?case by simp
next
  case (Cons c p)
  then obtain bs where bs: "utf8_encode p = Inr bs" "utf8_decode bs = Some p"
    by (auto simp: unicode_text_def)
  obtain b where b: "encode_code_point c = Inr b"
      "utf8_decode (b @ bs) = map_option (Cons c) (utf8_decode bs)"
    using decode_encode_code_point[of c bs] Cons.prems by (auto simp: unicode_text_def)
  show ?case using b bs by simp
qed


lemma unicode_text_Cons:
  "unicode_text (c # s) \<longleftrightarrow> c < 1114112 \<and> \<not> is_surrogate c \<and> unicode_text s"
  by (simp add: unicode_text_def)

lemma utf8_decode_text: "utf8_decode b = Some p \<Longrightarrow> unicode_text p"
proof (induction b arbitrary: p rule: utf8_decode.induct)
  case 1
  then show ?case by (simp add: unicode_text_def)
next
  case (2 b bs)
  consider "b < 128" | "194 \<le> b" "b < 224" | "224 \<le> b" "b < 240" | "240 \<le> b" "b < 245"
    | "128 \<le> b" "b < 194" | "245 \<le> b"
    by linarith
  then show ?case
  proof cases
    case 1
    then obtain q where q: "utf8_decode bs = Some q" "p = b # q"
      using "2.prems" by auto
    have "unicode_text q" using "2.IH"(1)[OF 1 q(1)] .
    then show ?thesis using q 1 by (simp add: unicode_text_Cons is_surrogate_def)
  next
    case 2
    then have nb: "\<not> b < 128" by simp
    from "2.prems" 2 obtain b1 r where bs: "bs = b1 # r"
      by (cases bs) auto
    have c1: "is_continuation b1"
      using "2.prems" 2 bs by (auto split: if_splits)
    then obtain q where q: "utf8_decode r = Some q" "p = ((b - 192) * 64 + (b1 - 128)) # q"
      using "2.prems" 2 bs by auto
    have "unicode_text q"
      using "2.IH"(2)[OF nb _ bs c1 q(1)] 2 by simp
    moreover have "(b - 192) * 64 + (b1 - 128) < 2048"
      using 2 c1 unfolding is_continuation_def by arith
    ultimately show ?thesis using q by (simp add: unicode_text_Cons is_surrogate_def)
  next
    case 3
    then have nb: "\<not> b < 128" and n2: "\<not> (194 \<le> b \<and> b < 224)" by simp_all
    from "2.prems" 3 obtain b1 b2 r where bs: "bs = b1 # b2 # r"
      by (cases bs; cases "tl bs") auto
    define c where "c = (b - 224) * 4096 + (b1 - 128) * 64 + (b2 - 128)"
    have ok: "is_continuation b1 \<and> is_continuation b2 \<and> 2048 \<le> c \<and> \<not> is_surrogate c"
      using "2.prems" 3 bs unfolding c_def by (auto simp: Let_def split: if_splits)
    then obtain q where q: "utf8_decode r = Some q" "p = c # q"
      using "2.prems" 3 bs unfolding c_def by (auto simp: Let_def)
    have "unicode_text q"
      using "2.IH"(3)[of b1 "b2 # r" b2 r c q] nb n2 3 bs c_def ok q(1) by blast
    moreover have "c < 1114112"
      using 3 ok unfolding c_def is_continuation_def by arith
    ultimately show ?thesis using q ok by (simp add: unicode_text_Cons)
  next
    case 4
    then have nb: "\<not> b < 128" and n2: "\<not> (194 \<le> b \<and> b < 224)"
      and n3: "\<not> (224 \<le> b \<and> b < 240)" by simp_all
    from "2.prems" 4 obtain b1 b2 b3 r where bs: "bs = b1 # b2 # b3 # r"
      by (cases bs; cases "tl bs"; cases "tl (tl bs)") auto
    define c where "c = (b - 240) * 262144 + (b1 - 128) * 4096 + (b2 - 128) * 64 + (b3 - 128)"
    have ok: "is_continuation b1 \<and> is_continuation b2 \<and> is_continuation b3 \<and>
              65536 \<le> c \<and> c < 1114112"
      using "2.prems" 4 bs unfolding c_def by (auto simp: Let_def split: if_splits)
    then obtain q where q: "utf8_decode r = Some q" "p = c # q"
      using "2.prems" 4 bs unfolding c_def by (auto simp: Let_def)
    have "unicode_text q"
      using "2.IH"(4)[of b1 "b2 # b3 # r" b2 "b3 # r" b3 r c q] nb n2 n3 4 bs c_def ok q(1)
      by blast
    moreover have "\<not> is_surrogate c" using ok by (simp add: is_surrogate_def)
    ultimately show ?thesis using q ok by (simp add: unicode_text_Cons)
  next
    case 5
    then show ?thesis using "2.prems" by simp
  next
    case 6
    then show ?thesis using "2.prems" by simp
  qed
qed

section \<open>Seal and open, credential\<close>

lemma toy_round_trip: "fernet_round_trip toy_library k"
  by (simp add: fernet_round_trip_def toy_library_def)

lemma typed_text_unicode: "typed_text s \<Longrightarrow> unicode_text s"
  by (induction s) (auto simp: typed_text_def unicode_text_def is_surrogate_def)

lemma utf8_encode_typed: "typed_text s \<Longrightarrow> utf8_encode s = Inr s"
  by (induction s) (auto simp: typed_text_def encode_code_point_def)

lemma string_input_loop_typed:
  "typed_text typed \<Longrightarrow> length typed \<le> max_len \<Longrightarrow>
   string_input_loop max_len typed evs = Entered t \<Longrightarrow> typed_text t \<and> length t \<le> max_len"
proof (induction max_len typed evs rule: string_input_loop.induct)
  case (1 max_len typed)
  then show ?case by simp
next
  case (2 max_len typed evs)
  then show ?case by simp
next
  case (3 max_len typed key evs)
  have bl: "typed_text (butlast typed)"
    using "3.prems"(1) by (auto simp: typed_text_def list_all_iff dest: in_set_butlastD)
  have ap: "32 \<le> key \<Longrightarrow> key \<le> 126 \<Longrightarrow> typed_text (typed @ [nat key])"
    using "3.prems"(1) by (auto simp: typed_text_def)
  show ?case
    using 3 bl ap
    by (auto simp: key_defs split: if_splits)
qed

lemma encrypt_then_decrypt:
  assumes "fernet_key_ok L k" and "fernet_round_trip L k" and "unicode_text p"
  shows "\<exists>token. encrypt_data L p k entropy = Inr token \<and>
                 decrypt_data L token k = Inr (Some p)"
proof -
  obtain b where b: "utf8_encode p = Inr b" "utf8_decode b = Some p"
    using utf8_round_trip[OF assms(3)] by blast
  have "fernet_decrypt L k (fernet_encrypt L k entropy b) = Some b"
    using assms(2) by (simp add: fernet_round_trip_def)
  then show ?thesis
    using assms(1) b by (simp add: encrypt_data_def decrypt_data_def)
qed

text \<open>
  A payload with a lone surrogate is not Unicode text: encoding it raises.
\<close>

lemma encrypt_data_lone_surrogate:
  "fernet_key_ok L k \<Longrightarrow> encrypt_data L [55296] k entropy = Inl UnicodeEncodeError"
  by (simp add: encrypt_data_def encode_code_point_def is_surrogate_def)

text \<open>
  C1. For a key that Fernet accepts and for which Fernet decrypts what it encrypted, and
  for a payload of Unicode text, \<open>encrypt_data\<close> returns a token and \<open>decrypt_data\<close> of that
  token under the same key returns the payload.
\<close>

theorem seal_open_round_trip:
  assumes "fernet_key_ok L k" and "fernet_round_trip L k" and "unicode_text p"
  shows "\<exists>token. encrypt_data L p k entropy = Inr token \<and>
                 decrypt_data L token k = Inr (Some p)"
  using assms by (rule encrypt_then_decrypt)

theorem seal_open_round_trip_witness:
  "fernet_key_ok toy_library toy_key \<and> fernet_round_trip toy_library toy_key \<and>
   unicode_text framed_payload \<and>
   (\<exists>token. encrypt_data toy_library framed_payload toy_key [7, 7] = Inr token \<and>
            decrypt_data toy_library token toy_key = Inr (Some framed_payload))"
proof -
  have k: "fernet_key_ok toy_library toy_key"
    by (simp add: toy_library_def toy_key_def ascii_def)
  have t: "unicode_text framed_payload"
    by (simp add: framed_payload_def ascii_def unicode_text_def is_surrogate_def)
  show ?thesis
    using seal_open_round_trip[OF k toy_round_trip t, of "[7, 7]"] k t toy_round_trip
    by simp
qed

lemma get_key_typed:
  "typed_password p \<Longrightarrow>
   get_key_from_password L p salt =
     Inr (urlsafe_b64encode L (pbkdf2_derive L salt KEY_ITERATIONS p))"
  by (simp add: typed_password_def utf8_encode_typed get_key_from_password_def)

lemma saved_credential:
  assumes "typed_password p0"
    and "save_password_hash L p0 salt v = Inr (v', Some (salt', key0))"
  shows "get_key_from_password L p0 salt = Inr key0 \<and>
         load_password_salt_and_hash v' = Some (salt, sha256_hexdigest L key0)"
  using assms(2) get_key_typed[OF assms(1), of L salt]
  by (auto simp: save_password_hash_def load_password_salt_and_hash_def Let_def
      split: option.splits credential_fault.splits)

lemma verify_password_compares_hashes:
  assumes "typed_password p0" and "typed_password p"
    and "save_password_hash L p0 salt v = Inr (v', Some (salt', key0))"
  shows "\<exists>h key. load_password_salt_and_hash v' = Some (salt, h) \<and>
           h = sha256_hexdigest L key0 \<and>
           get_key_from_password L p0 salt = Inr key0 \<and>
           get_key_from_password L p salt = Inr key \<and>
           verify_password L p salt h = Inr (sha256_hexdigest L key = h, key)"
  using saved_credential[OF assms(1,3)] get_key_typed[OF assms(2), of L salt]
  by (simp add: verify_password_def)

text \<open>
  C4 (amended). Let the credential be the one \<open>save_password_hash\<close> stored for the typed
  password \<open>p0\<close>: the salt and the hash of the key derived from \<open>p0\<close>. For every typed
  password \<open>p\<close>, \<open>verify_password\<close> with the stored salt and hash returns the key derived
  from \<open>p\<close> and the stored salt, together with the truth of "the hash of that key is the
  stored hash"; it returns true when \<open>p = p0\<close>.
\<close>

theorem verify_password_accepts_stored_password:
  assumes "typed_password p0" and "typed_password p"
    and "save_password_hash L p0 salt v = Inr (v', Some (salt', key0))"
  shows "\<exists>h key. load_password_salt_and_hash v' = Some (salt, h) \<and>
           h = sha256_hexdigest L key0 \<and>
           get_key_from_password L p0 salt = Inr key0 \<and>
           get_key_from_password L p salt = Inr key \<and>
           verify_password L p salt h = Inr (sha256_hexdigest L key = h, key) \<and>
           (p = p0 \<longrightarrow> verify_password L p salt h = Inr (True, key))"
proof -
  obtain h key where r: "load_password_salt_and_hash v' = Some (salt, h)"
      "h = sha256_hexdigest L key0" "get_key_from_password L p0 salt = Inr key0"
      "get_key_from_password L p salt = Inr key"
      "verify_password L p salt h = Inr (sha256_hexdigest L key = h, key)"
    using verify_password_compares_hashes[OF assms] by blast
  have "p = p0 \<longrightarrow> verify_password L p salt h = Inr (True, key)"
    using r by auto
  then show ?thesis using r by blast
qed

theorem verify_password_accepts_stored_password_witness:
  "typed_password (ascii ''correctpw1'') \<and> typed_password (ascii ''wrongpw'') \<and>
   (\<exists>v' key0.
      save_password_hash toy_library (ascii ''correctpw1'') toy_salt empty_vault
        = Inr (v', Some (toy_salt, key0)) \<and>
      (\<exists>h key. load_password_salt_and_hash v' = Some (toy_salt, h) \<and>
         verify_password toy_library (ascii ''wrongpw'') toy_salt h = Inr (False, key)) \<and>
      (\<exists>h key. load_password_salt_and_hash v' = Some (toy_salt, h) \<and>
         verify_password toy_library (ascii ''correctpw1'') toy_salt h = Inr (True, key)))"
proof -
  let ?v = "empty_vault\<lparr>password_file := Some (toy_salt, toy_salt @ ascii ''correctpw1'')\<rparr>"
  have t1: "typed_password (ascii ''correctpw1'')"
    by (simp add: typed_password_def typed_text_def ascii_def)
  have t2: "typed_password (ascii ''wrongpw'')"
    by (simp add: typed_password_def typed_text_def ascii_def)
  have s: "save_password_hash toy_library (ascii ''correctpw1'') toy_salt empty_vault
             = Inr (?v, Some (toy_salt, toy_salt @ ascii ''correctpw1''))"
    by (simp add: save_password_hash_def get_key_typed[OF t1] toy_library_def empty_vault_def)
  have l: "load_password_salt_and_hash ?v = Some (toy_salt, toy_salt @ ascii ''correctpw1'')"
    by (simp add: load_password_salt_and_hash_def)
  have k2: "get_key_from_password toy_library (ascii ''wrongpw'') toy_salt
              = Inr (toy_salt @ ascii ''wrongpw'')"
    by (simp add: get_key_typed[OF t2] toy_library_def)
  have differ: "sha256_hexdigest toy_library (toy_salt @ ascii ''wrongpw'')
                  \<noteq> toy_salt @ ascii ''correctpw1''"
    by (simp add: toy_library_def ascii_def)
  have wrong: "\<exists>h key. load_password_salt_and_hash ?v = Some (toy_salt, h) \<and>
         verify_password toy_library (ascii ''wrongpw'') toy_salt h = Inr (False, key)"
    using verify_password_accepts_stored_password[OF t1 t2 s] l k2 differ by auto
  have right: "\<exists>h key. load_password_salt_and_hash ?v = Some (toy_salt, h) \<and>
         verify_password toy_library (ascii ''correctpw1'') toy_salt h = Inr (True, key)"
    using verify_password_accepts_stored_password[OF t1 t1 s] by auto
  show ?thesis using t1 t2 s wrong right by blast
qed

text \<open>
  The converse fails. The typed passwords of 50 characters are more than the digests of 64
  hexadecimal digits, so whatever the library and the salt, two different typed passwords
  have the same stored hash, and \<open>verify_password\<close> returns true for the one with the
  credential of the other.
\<close>

lemma accepted_iff_same_hash:
  assumes "typed_password p0" and "typed_password p"
  shows "accepted L salt p0 p \<longleftrightarrow>
           sha256_hexdigest L (urlsafe_b64encode L (pbkdf2_derive L salt KEY_ITERATIONS p))
             = sha256_hexdigest L (urlsafe_b64encode L (pbkdf2_derive L salt KEY_ITERATIONS p0))"
  by (simp add: accepted_def save_password_hash_def get_key_typed[OF assms(1)]
      get_key_typed[OF assms(2)] empty_vault_def load_password_salt_and_hash_def
      verify_password_def)

lemma more_passwords_than_digests: "(16::nat) ^ 64 < 95 ^ 50"
  by simp

lemma stored_hash_collides:
  assumes "hex_digest L"
  shows "\<exists>p0 p. typed_password p0 \<and> typed_password p \<and> p \<noteq> p0 \<and> accepted L salt p0 p"
proof -
  define f where
    "f p = sha256_hexdigest L (urlsafe_b64encode L (pbkdf2_derive L salt KEY_ITERATIONS p))" for p
  let ?P = "{xs. set xs \<subseteq> {32..126::nat} \<and> length xs = 50}"
  let ?H = "{xs. set xs \<subseteq> set (ascii ''0123456789abcdef'') \<and> length xs = 64}"
  have fH: "finite ?H" by (rule finite_lists_length_eq) simp
  have cP: "card ?P = 95 ^ 50" by (simp add: card_lists_length_eq)
  have "card (set (ascii ''0123456789abcdef'')) \<le> 16"
    using card_length[of "ascii ''0123456789abcdef''"] by (simp add: ascii_def)
  then have "card (set (ascii ''0123456789abcdef'')) ^ 64 \<le> (16::nat) ^ 64"
    by (rule power_mono) simp
  then have cH: "card ?H \<le> 16 ^ 64" by (simp add: card_lists_length_eq)
  have sub: "f ` ?P \<subseteq> ?H"
    using assms by (auto simp: f_def hex_digest_def)
  have "card (f ` ?P) \<le> card ?H" by (rule card_mono[OF fH sub])
  also have "\<dots> \<le> 16 ^ 64" by (rule cH)
  also have "\<dots> < 95 ^ 50" by (rule more_passwords_than_digests)
  finally have "card (f ` ?P) < card ?P" using cP by simp
  then have "\<not> inj_on f ?P" using pigeonhole by blast
  then have "\<exists>p0\<in>?P. \<exists>p\<in>?P. f p = f p0 \<and> p \<noteq> p0"
    unfolding inj_on_def by blast
  then obtain p0 p where in0: "p0 \<in> ?P" and inp: "p \<in> ?P" and eq: "f p = f p0" and ne: "p \<noteq> p0"
    by blast
  have t0: "typed_password p0" and t: "typed_password p"
    using in0 inp by (auto simp: typed_password_def typed_text_def list_all_iff)
  have "accepted L salt p0 p"
    using accepted_iff_same_hash[OF t0 t, of L salt] eq by (simp add: f_def)
  then show ?thesis using t0 t ne by blast
qed

theorem verify_password_collision_counterexample:
  "\<not> (\<exists>L salt. hex_digest L \<and>
         (\<forall>p0 p. typed_password p0 \<and> typed_password p \<and> accepted L salt p0 p \<longrightarrow> p = p0))"
  using stored_hash_collides by blast

section \<open>Password rotation\<close>

lemma decrypt_data_text: "decrypt_data L b k = Inr (Some p) \<Longrightarrow> unicode_text p"
  by (auto simp: decrypt_data_def utf8_decode_text split: if_splits option.splits)

lemma stored_entries_sorted: "get_sorted_notes v = rev (sort (stored_entries v))"
  by (simp add: get_sorted_notes_def stored_entries_def endswith_def)

lemma set_get_sorted_notes: "set (get_sorted_notes v) = set (stored_entries v)"
  by (simp add: stored_entries_sorted)

lemma count_get_sorted_notes:
  "length (filter Q (get_sorted_notes v)) = length (filter Q (stored_entries v))"
proof -
  have "filter Q (get_sorted_notes v) = rev (filter Q (sort (stored_entries v)))"
    by (simp add: stored_entries_sorted rev_filter)
  also have "\<dots> = rev (sort (filter Q (stored_entries v)))"
    by (simp only: filter_sort)
  finally show ?thesis by simp
qed

lemma distinct_get_sorted_notes:
  "distinct (map fst (notes_dir v)) \<Longrightarrow> distinct (get_sorted_notes v)"
  by (simp add: get_sorted_notes_def)

lemma stored_entries_same_environment:
  "same_environment v v' \<Longrightarrow> stored_entries v' = stored_entries v"
  by (simp add: stored_entries_def same_environment_def)

lemma rotatable_cong:
  assumes "map_of (notes_dir v1) m = map_of (notes_dir v) m"
    and "unreadable v1 = unreadable v" and "unwritable v1 = unwritable v"
    and "write_breaks v1 = write_breaks v"
  shows "rotatable L old_key v1 m = rotatable L old_key v m"
  unfolding rotatable_def read_file_def assms by (rule refl)

lemma write_breaks_off_cong:
  assumes "map_of (notes_dir v1) m = map_of (notes_dir v) m"
    and "unreadable v1 = unreadable v" and "unwritable v1 = unwritable v"
    and "write_breaks v1 = write_breaks v"
  shows "write_breaks_off L old_key v1 m = write_breaks_off L old_key v m"
  unfolding write_breaks_off_def read_file_def assms by (rule refl)

lemma read_file_stored: "read_file v n = Inr b \<Longrightarrow> map_of (notes_dir v) n = Some b"
  by (auto simp: read_file_def split: if_splits option.splits)

lemma update_stored_keys:
  assumes "map_of (notes_dir v) n = Some b"
  shows "same_environment v (v\<lparr>notes_dir := AList.update n c (notes_dir v)\<rparr>)"
proof -
  have "n \<in> set (map fst (notes_dir v))"
    using assms by (metis map_of_eq_None_iff option.distinct(1) set_map)
  then have "map fst (AList.update n c (notes_dir v)) = map fst (notes_dir v)"
    by (simp add: update_keys)
  then show ?thesis by (simp add: same_environment_def)
qed

lemma reencrypt_note_fails:
  assumes "\<not> rotatable L old_key v n"
  shows "\<exists>v1. reencrypt_note L old_key new_key entropy n v = (v1, False) \<and>
           same_environment v v1 \<and>
           (\<forall>m. m \<noteq> n \<longrightarrow> map_of (notes_dir v1) m = map_of (notes_dir v) m) \<and>
           (\<not> write_breaks_off L old_key v n \<longrightarrow> v1 = v)"
proof (cases "write_breaks_off L old_key v n")
  case False
  have "reencrypt_note L old_key new_key entropy n v = (v, False)"
    using assms False
    by (auto simp: rotatable_def write_breaks_off_def reencrypt_note_def write_file_def
        split: sum.splits option.splits if_splits)
  then show ?thesis by (simp add: same_environment_def)
next
  case True
  obtain b p where rd: "read_file v n = Inr b" and dec: "decrypt_data L b old_key = Inr (Some p)"
    and w: "n \<notin> set (unwritable v)" and wb: "n \<in> set (write_breaks v)"
    using True by (auto simp: write_breaks_off_def split: sum.splits option.splits)
  let ?v1 = "v\<lparr>notes_dir := AList.update n [] (notes_dir v)\<rparr>"
  have env1: "same_environment v ?v1"
    using read_file_stored[OF rd] by (rule update_stored_keys)
  have others: "\<forall>m. m \<noteq> n \<longrightarrow> map_of (notes_dir ?v1) m = map_of (notes_dir v) m"
    by (simp add: update_conv')
  show ?thesis
  proof (cases "encrypt_data L p new_key entropy")
    case (Inl e)
    have "reencrypt_note L old_key new_key entropy n v = (v, False)"
      using rd dec Inl by (simp add: reencrypt_note_def)
    then show ?thesis using True by (simp add: same_environment_def)
  next
    case (Inr token)
    have "reencrypt_note L old_key new_key entropy n v = (?v1, False)"
      using rd dec Inr w wb by (simp add: reencrypt_note_def write_file_def)
    then show ?thesis using env1 others True by blast
  qed
qed

lemma reencrypt_note_succeeds:
  assumes "fernet_key_ok L new_key" and "fernet_round_trip L new_key"
    and "rotatable L old_key v n"
  shows "\<exists>v1. reencrypt_note L old_key new_key entropy n v = (v1, True) \<and>
           same_environment v v1 \<and>
           (\<forall>m. m \<noteq> n \<longrightarrow> map_of (notes_dir v1) m = map_of (notes_dir v) m) \<and>
           carried_over L old_key new_key v v1 n"
proof -
  obtain b p where rd: "read_file v n = Inr b" and dec: "decrypt_data L b old_key = Inr (Some p)"
    and w: "n \<notin> set (unwritable v)" and wb: "n \<notin> set (write_breaks v)"
    using assms(3) by (auto simp: rotatable_def split: sum.splits option.splits)
  have mb: "map_of (notes_dir v) n = Some b"
    using rd by (rule read_file_stored)
  have "unicode_text p" using dec by (rule decrypt_data_text)
  then obtain token where enc: "encrypt_data L p new_key entropy = Inr token"
    and dec': "decrypt_data L token new_key = Inr (Some p)"
    using encrypt_then_decrypt[OF assms(1,2)] by blast
  let ?v1 = "v\<lparr>notes_dir := AList.update n token (notes_dir v)\<rparr>"
  have r: "reencrypt_note L old_key new_key entropy n v = (?v1, True)"
    using rd dec enc w wb by (simp add: reencrypt_note_def write_file_def)
  have env: "same_environment v ?v1"
    using mb by (rule update_stored_keys)
  have others: "\<forall>m. m \<noteq> n \<longrightarrow> map_of (notes_dir ?v1) m = map_of (notes_dir v) m"
    by (simp add: update_conv')
  have co: "carried_over L old_key new_key v ?v1 n"
    unfolding carried_over_def using mb dec dec' by (simp add: update_conv')
  show ?thesis using r env others co by blast
qed

lemma reencrypt_note_effect:
  assumes "fernet_key_ok L new_key" and "fernet_round_trip L new_key"
  shows "\<exists>v1. reencrypt_note L old_key new_key entropy n v = (v1, rotatable L old_key v n) \<and>
           same_environment v v1 \<and>
           (\<forall>m. m \<noteq> n \<longrightarrow> map_of (notes_dir v1) m = map_of (notes_dir v) m) \<and>
           (if rotatable L old_key v n
            then carried_over L old_key new_key v v1 n
            else (\<not> write_breaks_off L old_key v n \<longrightarrow>
                    map_of (notes_dir v1) n = map_of (notes_dir v) n))"
proof (cases "rotatable L old_key v n")
  case True
  then show ?thesis
    using reencrypt_note_succeeds[OF assms True, of entropy] by simp
next
  case False
  then show ?thesis
    using reencrypt_note_fails[OF False, of new_key entropy] by auto
qed

lemma reencrypt_notes_effect:
  assumes "fernet_key_ok L new_key" and "fernet_round_trip L new_key"
  shows "distinct files \<Longrightarrow>
     \<exists>v'. reencrypt_notes L old_key new_key entropy i files v s f =
            (v', s + length (filter (rotatable L old_key v) files),
                 f + length (filter (\<lambda>n. \<not> rotatable L old_key v n) files)) \<and>
          same_environment v v' \<and>
          (\<forall>m. m \<notin> set files \<longrightarrow> map_of (notes_dir v') m = map_of (notes_dir v) m) \<and>
          (\<forall>n\<in>set files. if rotatable L old_key v n
                             then carried_over L old_key new_key v v' n
                             else (\<not> write_breaks_off L old_key v n \<longrightarrow>
                                     map_of (notes_dir v') n = map_of (notes_dir v) n))"
proof (induction files arbitrary: v i s f)
  case Nil
  show ?case by (simp add: same_environment_def)
next
  case (Cons n rest)
  have dist: "distinct rest" and nin: "n \<notin> set rest" using Cons.prems by simp_all
  obtain v1 where step: "reencrypt_note L old_key new_key (entropy i) n v
                           = (v1, rotatable L old_key v n)"
    and env1: "same_environment v v1"
    and others1: "\<forall>m. m \<noteq> n \<longrightarrow> map_of (notes_dir v1) m = map_of (notes_dir v) m"
    and head1: "if rotatable L old_key v n
                then carried_over L old_key new_key v v1 n
                else (\<not> write_breaks_off L old_key v n \<longrightarrow>
                        map_of (notes_dir v1) n = map_of (notes_dir v) n)"
    using reencrypt_note_effect[OF assms, of old_key "entropy i" n v] by blast
  have same: "map_of (notes_dir v1) m = map_of (notes_dir v) m" if "m \<in> set rest" for m
    using others1 that nin by auto
  have faults: "unreadable v1 = unreadable v" "unwritable v1 = unwritable v"
      "write_breaks v1 = write_breaks v"
    using env1 by (simp_all add: same_environment_def)
  have rot: "rotatable L old_key v1 m = rotatable L old_key v m" if "m \<in> set rest" for m
    using same[OF that] faults by (rule rotatable_cong)
  have wbo: "write_breaks_off L old_key v1 m = write_breaks_off L old_key v m"
    if "m \<in> set rest" for m
    using same[OF that] faults by (rule write_breaks_off_cong)
  have f1: "filter (rotatable L old_key v1) rest = filter (rotatable L old_key v) rest"
    using rot by (auto intro: filter_cong)
  have f2: "filter (\<lambda>n. \<not> rotatable L old_key v1 n) rest
              = filter (\<lambda>n. \<not> rotatable L old_key v n) rest"
    using rot by (auto intro: filter_cong)
  define s1 where "s1 = (if rotatable L old_key v n then s + 1 else s)"
  define f1' where "f1' = (if rotatable L old_key v n then f else f + 1)"
  obtain v' where v': "reencrypt_notes L old_key new_key entropy (Suc i) rest v1 s1 f1' =
            (v', s1 + length (filter (rotatable L old_key v1) rest),
                 f1' + length (filter (\<lambda>n. \<not> rotatable L old_key v1 n) rest))"
      "same_environment v1 v'"
      "\<forall>m. m \<notin> set rest \<longrightarrow> map_of (notes_dir v') m = map_of (notes_dir v1) m"
      "\<forall>n\<in>set rest. if rotatable L old_key v1 n
                             then carried_over L old_key new_key v1 v' n
                             else (\<not> write_breaks_off L old_key v1 n \<longrightarrow>
                                     map_of (notes_dir v') n = map_of (notes_dir v1) n)"
    using Cons.IH[OF dist, of "Suc i" v1 s1 f1'] by blast
  have unfold: "reencrypt_notes L old_key new_key entropy i (n # rest) v s f =
                  reencrypt_notes L old_key new_key entropy (Suc i) rest v1 s1 f1'"
    using step by (cases "rotatable L old_key v n") (simp_all add: s1_def f1'_def)
  have res: "reencrypt_notes L old_key new_key entropy i (n # rest) v s f =
            (v', s + length (filter (rotatable L old_key v) (n # rest)),
                 f + length (filter (\<lambda>n. \<not> rotatable L old_key v n) (n # rest)))"
    unfolding unfold v'(1) f1 f2 by (simp add: s1_def f1'_def)
  have env: "same_environment v v'"
    using env1 v'(2) by (simp add: same_environment_def)
  have out: "\<forall>m. m \<notin> set (n # rest) \<longrightarrow> map_of (notes_dir v') m = map_of (notes_dir v) m"
    using v'(3) others1 by simp
  have kept: "map_of (notes_dir v') n = map_of (notes_dir v1) n"
    using v'(3) nin by simp
  have head: "if rotatable L old_key v n
              then carried_over L old_key new_key v v' n
              else (\<not> write_breaks_off L old_key v n \<longrightarrow>
                      map_of (notes_dir v') n = map_of (notes_dir v) n)"
    using head1 kept by (cases "rotatable L old_key v n") (simp_all add: carried_over_def)
  have tail: "if rotatable L old_key v k
              then carried_over L old_key new_key v v' k
              else (\<not> write_breaks_off L old_key v k \<longrightarrow>
                      map_of (notes_dir v') k = map_of (notes_dir v) k)"
    if "k \<in> set rest" for k
    using v'(4) that rot[OF that] wbo[OF that] same[OF that] by (auto simp: carried_over_def)
  have all: "\<forall>k\<in>set (n # rest). if rotatable L old_key v k
                             then carried_over L old_key new_key v v' k
                             else (\<not> write_breaks_off L old_key v k \<longrightarrow>
                                     map_of (notes_dir v') k = map_of (notes_dir v) k)"
    using head tail by simp
  show ?case using res env out all by blast
qed

lemma undecryptable_not_rotatable:
  "undecryptable L old_key v n \<Longrightarrow> \<not> rotatable L old_key v n"
  by (auto simp: undecryptable_def rotatable_def read_file_def
      split: option.splits sum.splits if_splits)

lemma undecryptable_not_written:
  "undecryptable L old_key v n \<Longrightarrow> \<not> write_breaks_off L old_key v n"
  by (auto simp: undecryptable_def write_breaks_off_def read_file_def
      split: option.splits sum.splits if_splits)

lemma change_password_effect:
  assumes "fernet_key_ok L new_key" and "fernet_round_trip L new_key"
    and "get_key_from_password L new_password salt = Inr new_key"
    and "new_key \<noteq> []" and "length salt = SALT_SIZE"
    and "password_file_fault v = None"
    and "distinct (map fst (notes_dir v))"
  shows "\<exists>v'. change_password L old_key new_password salt entropy v =
            Inr (v', \<lparr>password_changed = True, session_key = new_key,
                      successes = length (filter (rotatable L old_key v) (stored_entries v)),
                      failures = length (filter (\<lambda>n. \<not> rotatable L old_key v n)
                                           (stored_entries v))\<rparr>) \<and>
          stored_entries v' = stored_entries v \<and>
          (\<forall>n\<in>set (stored_entries v).
              if rotatable L old_key v n
              then carried_over L old_key new_key v v' n
              else (\<not> write_breaks_off L old_key v n \<longrightarrow>
                      map_of (notes_dir v') n = map_of (notes_dir v) n))"
proof -
  let ?v1 = "v\<lparr>password_file := Some (salt, sha256_hexdigest L new_key)\<rparr>"
  have salt: "salt \<noteq> []" using assms(5) by (auto simp: SALT_SIZE_def)
  have save: "save_password_hash L new_password salt v = Inr (?v1, Some (salt, new_key))"
    using assms(3,6) by (simp add: save_password_hash_def)
  have sorted1: "get_sorted_notes ?v1 = get_sorted_notes v"
    by (simp add: get_sorted_notes_def)
  have rot1: "rotatable L old_key ?v1 = rotatable L old_key v"
    by (rule ext) (rule rotatable_cong, simp_all)
  have wbo1: "write_breaks_off L old_key ?v1 = write_breaks_off L old_key v"
    by (rule ext) (rule write_breaks_off_cong, simp_all)
  have dist: "distinct (get_sorted_notes ?v1)"
    unfolding sorted1 using assms(7) by (rule distinct_get_sorted_notes)
  obtain v' where loop:
      "reencrypt_notes L old_key new_key entropy 0 (get_sorted_notes ?v1) ?v1 0 0 =
         (v', 0 + length (filter (rotatable L old_key ?v1) (get_sorted_notes ?v1)),
              0 + length (filter (\<lambda>n. \<not> rotatable L old_key ?v1 n) (get_sorted_notes ?v1)))"
    and env: "same_environment ?v1 v'"
    and each: "\<forall>n\<in>set (get_sorted_notes ?v1).
                 if rotatable L old_key ?v1 n
                 then carried_over L old_key new_key ?v1 v' n
                 else (\<not> write_breaks_off L old_key ?v1 n \<longrightarrow>
                         map_of (notes_dir v') n = map_of (notes_dir ?v1) n)"
    using reencrypt_notes_effect[OF assms(1,2) dist, of old_key entropy 0 ?v1 0 0] by blast
  have res: "change_password L old_key new_password salt entropy v =
            Inr (v', \<lparr>password_changed = True, session_key = new_key,
                      successes = length (filter (rotatable L old_key v) (stored_entries v)),
                      failures = length (filter (\<lambda>n. \<not> rotatable L old_key v n)
                                           (stored_entries v))\<rparr>)"
    using save loop salt assms(4) unfolding sorted1 rot1 count_get_sorted_notes
    by (simp add: change_password_def sorted1)
  have names: "stored_entries v' = stored_entries v"
    using env by (simp add: stored_entries_def same_environment_def)
  have "\<forall>n\<in>set (stored_entries v).
              if rotatable L old_key v n
              then carried_over L old_key new_key v v' n
              else (\<not> write_breaks_off L old_key v n \<longrightarrow>
                      map_of (notes_dir v') n = map_of (notes_dir v) n)"
  proof -
    have co: "carried_over L old_key new_key ?v1 v' k = carried_over L old_key new_key v v' k"
      for k by (simp add: carried_over_def)
    have nd: "notes_dir ?v1 = notes_dir v" by simp
    show ?thesis using each unfolding sorted1 rot1 wbo1 co nd set_get_sorted_notes .
  qed
  then show ?thesis using res names by blast
qed

text \<open>
  C2. The new credential is saved, and every one of the N entries of the vault (the files
  of the notes directory whose name ends with \<open>.rz\<close>) can be read and written and decrypts
  under the old key. Then \<open>change_password\<close> reports the change with the new key, N
  successes and 0 failures, the vault has the same entries, and every one of them decrypts
  under the new key to the plaintext it had under the old key.
\<close>

theorem rotation_happy_path:
  assumes "fernet_key_ok L new_key" and "fernet_round_trip L new_key"
    and "get_key_from_password L new_password salt = Inr new_key"
    and "new_key \<noteq> []" and "length salt = SALT_SIZE"
    and "password_file_fault v = None"
    and "distinct (map fst (notes_dir v))"
    and "\<forall>n\<in>set (stored_entries v). rotatable L old_key v n"
  shows "\<exists>v'. change_password L old_key new_password salt entropy v =
            Inr (v', \<lparr>password_changed = True, session_key = new_key,
                      successes = length (stored_entries v), failures = 0\<rparr>) \<and>
          stored_entries v' = stored_entries v \<and>
          (\<forall>n\<in>set (stored_entries v). carried_over L old_key new_key v v' n)"
proof -
  have a: "filter (rotatable L old_key v) (stored_entries v) = stored_entries v"
    using assms(8) by (simp add: filter_id_conv)
  have b: "filter (\<lambda>n. \<not> rotatable L old_key v n) (stored_entries v) = []"
    using assms(8) by (simp add: filter_empty_conv)
  show ?thesis
    using change_password_effect[OF assms(1-7), of old_key entropy] assms(8)
    unfolding a b by auto
qed

text \<open>
  C3. The new credential is saved and the entry \<open>i\<close> of the vault does not decrypt under the
  old key. Then \<open>change_password\<close> still completes and returns the new key, counts at least
  one failure, leaves the stored bytes of \<open>i\<close> as they were, and every entry of the vault
  that can be read, decrypted and written is re-encrypted: it decrypts under the new key to
  its plaintext. Successes and failures add up to the number of entries of the vault.
\<close>

theorem rotation_partial_failure:
  assumes "fernet_key_ok L new_key" and "fernet_round_trip L new_key"
    and "get_key_from_password L new_password salt = Inr new_key"
    and "new_key \<noteq> []" and "length salt = SALT_SIZE"
    and "password_file_fault v = None"
    and "distinct (map fst (notes_dir v))"
    and "i \<in> set (stored_entries v)" and "undecryptable L old_key v i"
  shows "\<exists>v' r. change_password L old_key new_password salt entropy v = Inr (v', r) \<and>
          password_changed r \<and> session_key r = new_key \<and>
          failures r \<ge> 1 \<and>
          successes r = length (filter (rotatable L old_key v) (stored_entries v)) \<and>
          successes r + failures r = length (stored_entries v) \<and>
          stored_entries v' = stored_entries v \<and>
          map_of (notes_dir v') i = map_of (notes_dir v) i \<and>
          (\<forall>n\<in>set (stored_entries v).
              rotatable L old_key v n \<longrightarrow> carried_over L old_key new_key v v' n)"
proof -
  let ?ok = "filter (rotatable L old_key v) (stored_entries v)"
  let ?bad = "filter (\<lambda>n. \<not> rotatable L old_key v n) (stored_entries v)"
  obtain v' where res: "change_password L old_key new_password salt entropy v =
            Inr (v', \<lparr>password_changed = True, session_key = new_key,
                      successes = length ?ok, failures = length ?bad\<rparr>)"
    and names: "stored_entries v' = stored_entries v"
    and each: "\<forall>n\<in>set (stored_entries v).
              if rotatable L old_key v n
              then carried_over L old_key new_key v v' n
              else (\<not> write_breaks_off L old_key v n \<longrightarrow>
                      map_of (notes_dir v') n = map_of (notes_dir v) n)"
    using change_password_effect[OF assms(1-7), of old_key entropy] by blast
  have nr: "\<not> rotatable L old_key v i"
    using assms(9) by (rule undecryptable_not_rotatable)
  have nw: "\<not> write_breaks_off L old_key v i"
    using assms(9) by (rule undecryptable_not_written)
  have "i \<in> set ?bad" using nr assms(8) by simp
  then have one: "1 \<le> length ?bad"
    by (cases ?bad) auto
  have total: "length ?ok + length ?bad = length (stored_entries v)"
    by (rule sum_length_filter_compl)
  have same: "map_of (notes_dir v') i = map_of (notes_dir v) i"
    using each assms(8) nr nw by auto
  have rest: "\<forall>n\<in>set (stored_entries v).
              rotatable L old_key v n \<longrightarrow> carried_over L old_key new_key v v' n"
    using each by auto
  show ?thesis using res one total names same rest by simp
qed

lemma toy_new_key_ok: "fernet_key_ok toy_library toy_new_key"
  by (simp add: toy_library_def toy_new_key_def toy_salt_def ascii_def)

lemma toy_new_key_derived:
  "get_key_from_password toy_library toy_new_password toy_salt = Inr toy_new_key"
proof -
  have "typed_text toy_new_password"
    by (simp add: toy_new_password_def typed_text_def ascii_def)
  then show ?thesis
    by (simp add: get_key_from_password_def utf8_encode_typed toy_library_def toy_new_key_def)
qed

lemma toy_new_key_nonempty: "toy_new_key \<noteq> []"
  by (simp add: toy_new_key_def toy_salt_def ascii_def)

lemma toy_salt_size: "length toy_salt = SALT_SIZE"
  by (simp add: toy_salt_def SALT_SIZE_def ascii_def)

lemma healthy_stored: "stored_entries healthy_vault = [example_note, other_note]"
  by (simp add: stored_entries_def healthy_vault_def ENTRY_EXTENSION_def
      example_note_def other_note_def ascii_def suffix_to_prefix)

lemma damaged_stored: "stored_entries damaged_vault = [example_note, other_note]"
  by (simp add: stored_entries_def damaged_vault_def ENTRY_EXTENSION_def
      example_note_def other_note_def ascii_def suffix_to_prefix)

lemma notes_differ: "other_note \<noteq> example_note"
  by (simp add: example_note_def other_note_def ascii_def)

lemma toy_decrypt_sealed:
  "typed_text d \<Longrightarrow>
   decrypt_data toy_library (fernet_encrypt toy_library toy_key e d) toy_key = Inr (Some d)"
proof -
  assume "typed_text d"
  then have "unicode_text d" by (rule typed_text_unicode)
  then obtain b where "utf8_encode d = Inr b" "utf8_decode b = Some d"
    using utf8_round_trip by blast
  moreover assume "typed_text d"
  ultimately have "utf8_decode d = Some d" by (simp add: utf8_encode_typed)
  moreover have "fernet_key_ok toy_library toy_key"
    by (simp add: toy_library_def toy_key_def ascii_def)
  moreover have "fernet_decrypt toy_library toy_key (fernet_encrypt toy_library toy_key e d) = Some d"
    using toy_round_trip[of toy_key] by (simp add: fernet_round_trip_def)
  ultimately show ?thesis by (simp add: decrypt_data_def)
qed

lemma healthy_rotatable:
  "\<forall>n\<in>set (stored_entries healthy_vault). rotatable toy_library toy_key healthy_vault n"
proof -
  have 1: "typed_text legacy_payload"
    by (simp add: legacy_payload_def typed_text_def ascii_def)
  have 2: "utf8_decode framed_payload = Some framed_payload"
    by (simp add: framed_payload_def ascii_def)
  have 3: "fernet_key_ok toy_library toy_key"
    by (simp add: toy_library_def toy_key_def ascii_def)
  have 4: "fernet_decrypt toy_library toy_key (fernet_encrypt toy_library toy_key e d) = Some d"
    for e d using toy_round_trip[of toy_key] by (simp add: fernet_round_trip_def)
  have a: "rotatable toy_library toy_key healthy_vault other_note"
    using toy_decrypt_sealed[OF 1, of "[2]"] notes_differ
    by (simp add: rotatable_def read_file_def healthy_vault_def)
  have b: "rotatable toy_library toy_key healthy_vault example_note"
    using 2 3 4
    by (simp add: rotatable_def read_file_def healthy_vault_def decrypt_data_def)
  show ?thesis unfolding healthy_stored using a b by simp
qed

lemma damaged_undecryptable: "undecryptable toy_library toy_key damaged_vault other_note"
  using notes_differ
  by (simp add: undecryptable_def damaged_vault_def decrypt_data_def toy_library_def
      toy_key_def ascii_def)

theorem rotation_happy_path_witness:
  "fernet_key_ok toy_library toy_new_key \<and> fernet_round_trip toy_library toy_new_key \<and>
   get_key_from_password toy_library toy_new_password toy_salt = Inr toy_new_key \<and>
   toy_new_key \<noteq> [] \<and> length toy_salt = SALT_SIZE \<and>
   password_file_fault healthy_vault = None \<and>
   distinct (map fst (notes_dir healthy_vault)) \<and>
   stored_entries healthy_vault = [example_note, other_note] \<and>
   rotatable toy_library toy_key healthy_vault example_note \<and>
   rotatable toy_library toy_key healthy_vault other_note \<and>
   (\<exists>v'. change_password toy_library toy_key toy_new_password toy_salt toy_entropy healthy_vault =
            Inr (v', \<lparr>password_changed = True, session_key = toy_new_key,
                      successes = 2, failures = 0\<rparr>) \<and>
          stored_entries v' = [example_note, other_note] \<and>
          carried_over toy_library toy_key toy_new_key healthy_vault v' example_note \<and>
          carried_over toy_library toy_key toy_new_key healthy_vault v' other_note)"
proof -
  have w: "password_file_fault healthy_vault = None"
    by (simp add: healthy_vault_def)
  have d: "distinct (map fst (notes_dir healthy_vault))"
    using notes_differ by (simp add: healthy_vault_def)
  have "\<exists>v'. change_password toy_library toy_key toy_new_password toy_salt toy_entropy healthy_vault =
            Inr (v', \<lparr>password_changed = True, session_key = toy_new_key,
                      successes = 2, failures = 0\<rparr>) \<and>
          stored_entries v' = [example_note, other_note] \<and>
          carried_over toy_library toy_key toy_new_key healthy_vault v' example_note \<and>
          carried_over toy_library toy_key toy_new_key healthy_vault v' other_note"
    using rotation_happy_path[OF toy_new_key_ok toy_round_trip toy_new_key_derived
        toy_new_key_nonempty toy_salt_size w d healthy_rotatable, of toy_entropy]
    unfolding healthy_stored by (simp add: numeral_2_eq_2)
  then show ?thesis
    using toy_new_key_ok toy_round_trip[of toy_new_key] toy_new_key_derived toy_new_key_nonempty
      toy_salt_size w d healthy_rotatable healthy_stored
    by simp
qed

theorem rotation_partial_failure_witness:
  "fernet_key_ok toy_library toy_new_key \<and> fernet_round_trip toy_library toy_new_key \<and>
   get_key_from_password toy_library toy_new_password toy_salt = Inr toy_new_key \<and>
   toy_new_key \<noteq> [] \<and> length toy_salt = SALT_SIZE \<and>
   password_file_fault damaged_vault = None \<and>
   distinct (map fst (notes_dir damaged_vault)) \<and>
   other_note \<in> set (stored_entries damaged_vault) \<and>
   undecryptable toy_library toy_key damaged_vault other_note \<and>
   (\<exists>v' r. change_password toy_library toy_key toy_new_password toy_salt toy_entropy damaged_vault
              = Inr (v', r) \<and>
          password_changed r \<and> session_key r = toy_new_key \<and> failures r \<ge> 1 \<and>
          successes r + failures r = 2 \<and>
          map_of (notes_dir v') other_note = Some [1, 2, 3])"
proof -
  have w: "password_file_fault damaged_vault = None"
    by (simp add: damaged_vault_def)
  have d: "distinct (map fst (notes_dir damaged_vault))"
    using notes_differ by (simp add: damaged_vault_def)
  have i: "other_note \<in> set (stored_entries damaged_vault)"
    unfolding damaged_stored by simp
  have m: "map_of (notes_dir damaged_vault) other_note = Some [1, 2, 3]"
    using notes_differ by (simp add: damaged_vault_def)
  have "\<exists>v' r. change_password toy_library toy_key toy_new_password toy_salt toy_entropy damaged_vault
              = Inr (v', r) \<and>
          password_changed r \<and> session_key r = toy_new_key \<and> failures r \<ge> 1 \<and>
          successes r + failures r = 2 \<and>
          map_of (notes_dir v') other_note = Some [1, 2, 3]"
    using rotation_partial_failure[OF toy_new_key_ok toy_round_trip toy_new_key_derived
        toy_new_key_nonempty toy_salt_size w d i damaged_undecryptable, of toy_entropy]
    unfolding damaged_stored m by auto
  then show ?thesis
    using toy_new_key_ok toy_round_trip[of toy_new_key] toy_new_key_derived toy_new_key_nonempty
      toy_salt_size w d i damaged_undecryptable
    by (intro conjI)
qed

section \<open>File names of new entries\<close>

lemma noon_filename: "entry_filename noon 500 = ascii ''20240101_120000_500.rz''"
  by (simp add: entry_filename_def strftime_stamp_def zero_pad_def noon_def ENTRY_EXTENSION_def
      ascii_def)

text \<open>
  Only 900 draws exist: among 1000 file names generated for one clock reading two are equal.
\<close>

lemma thousand_ids_collide:
  assumes "length rs = 1000" and "\<forall>r\<in>set rs. 100 \<le> r \<and> r \<le> 999"
  shows "\<not> distinct (map (entry_filename now) rs)"
proof
  assume "distinct (map (entry_filename now) rs)"
  then have "distinct rs" by (simp add: distinct_map)
  then have "card (set rs) = 1000" using assms(1) by (simp add: distinct_card)
  moreover have "set rs \<subseteq> {100..999}" using assms(2) by auto
  then have "card (set rs) \<le> card {100..999::nat}" by (intro card_mono) auto
  ultimately show False by simp
qed

lemma toy_key_ok: "fernet_key_ok toy_library toy_key"
  by (simp add: toy_library_def toy_key_def ascii_def)

lemma utf8_encode_ascii: "list_all (\<lambda>c. c < 128) s \<Longrightarrow> utf8_encode s = Inr s"
  by (induction s) (auto simp: encode_code_point_def)

lemma encrypt_ascii:
  "list_all (\<lambda>c. c < 128) d \<Longrightarrow>
   encrypt_data toy_library d toy_key e = Inr (fernet_encrypt toy_library toy_key e d)"
  using toy_key_ok by (simp add: encrypt_data_def utf8_encode_ascii)

lemma token_nonempty: "fernet_encrypt toy_library toy_key e d \<noteq> []"
  by (simp add: toy_library_def)

text \<open>
  C5. Two entries saved in the same second with the same draw of \<open>random.randint(100, 999)\<close>
  get the same file name, and the second save overwrites the first: the notes directory
  holds one file, with the second entry.
\<close>

theorem same_second_same_draw_overwrites:
  "notes_dir first_saved =
     [(ascii ''20240101_120000_500.rz'',
       fernet_encrypt toy_library toy_key [1] (full_entry_data (ascii ''first'') (ascii ''one'')))] \<and>
   notes_dir both_saved =
     [(ascii ''20240101_120000_500.rz'',
       fernet_encrypt toy_library toy_key [2] (full_entry_data (ascii ''second'') (ascii ''two'')))]"
proof -
  have a1: "list_all (\<lambda>c. c < 128) (full_entry_data (ascii ''first'') (ascii ''one''))"
    by (simp add: full_entry_data_def TITLE_MARK_def CONTENT_SEP_def ascii_def)
  have a2: "list_all (\<lambda>c. c < 128) (full_entry_data (ascii ''second'') (ascii ''two''))"
    by (simp add: full_entry_data_def TITLE_MARK_def CONTENT_SEP_def ascii_def)
  have s1: "str_strip (ascii ''one'') \<noteq> []" and s2: "str_strip (ascii ''two'') \<noteq> []"
    by (simp_all add: str_strip_def is_whitespace_def ascii_def)
  have n1: "ascii ''first'' \<noteq> []" and n2: "ascii ''second'' \<noteq> []"
    by (simp_all add: ascii_def)
  have first: "first_saved =
      empty_vault\<lparr>notes_dir := [(ascii ''20240101_120000_500.rz'',
        fernet_encrypt toy_library toy_key [1]
          (full_entry_data (ascii ''first'') (ascii ''one'')))]\<rparr>"
    using s1 n1
    by (simp add: first_saved_def write_new_entry_def encrypt_ascii[OF a1] token_nonempty
        write_file_def empty_vault_def noon_filename)
  have both: "notes_dir both_saved =
      [(ascii ''20240101_120000_500.rz'',
        fernet_encrypt toy_library toy_key [2]
          (full_entry_data (ascii ''second'') (ascii ''two'')))]"
    using s2 n2 unfolding both_saved_def first
    by (simp add: write_new_entry_def encrypt_ascii[OF a2] token_nonempty
        write_file_def empty_vault_def noon_filename)
  have one: "notes_dir first_saved =
      [(ascii ''20240101_120000_500.rz'',
        fernet_encrypt toy_library toy_key [1]
          (full_entry_data (ascii ''first'') (ascii ''one'')))]"
    unfolding first by simp
  show ?thesis using one both by (intro conjI)
qed

end
